theory Spec2Isabelle
  imports Main "HOL-Library.Sublist" "HOL-Library.AList"
begin

section \<open>Strings, arrays and maps of the host language\<close>

text \<open>
  Strings are character lists. \<open>String.prototype.startsWith\<close> and \<open>endsWith\<close> are the
  prefix and suffix tests.
\<close>

definition startsWith :: "string \<Rightarrow> string \<Rightarrow> bool" where
  "startsWith s d = prefix d s"

definition endsWith :: "string \<Rightarrow> string \<Rightarrow> bool" where
  "endsWith s d = suffix d s"

text \<open>
  \<open>Array.prototype.indexOf\<close> returns the first index of the element, or \<open>-1\<close>.
\<close>

fun indexOf :: "'a list \<Rightarrow> 'a \<Rightarrow> int" where
  "indexOf [] x = - 1"
| "indexOf (y # ys) x =
     (if y = x then 0 else (let i = indexOf ys x in if i < 0 then - 1 else i + 1))"

text \<open>
  \<open>Array.prototype.splice(start, 1)\<close>: a negative start counts from the end (clamped at
  0), a start beyond the end is clamped to the length, and at most one element is deleted.
\<close>

definition splice1 :: "int \<Rightarrow> 'a list \<Rightarrow> 'a list" where
  "splice1 start xs =
     (let len = int (length xs);
          actualStart = (if start < 0 then max (len + start) 0 else min start len);
          deleteCount = min 1 (len - actualStart)
      in take (nat actualStart) xs @ drop (nat (actualStart + deleteCount)) xs)"

text \<open>An array read \<open>xs[i]\<close>: out of range it yields \<open>undefined\<close>, here \<open>None\<close>.\<close>

definition at_index :: "'a list \<Rightarrow> nat \<Rightarrow> 'a option" where
  "at_index xs i = (if i < length xs then Some (xs ! i) else None)"

section \<open>Data model\<close>

type_synonym TextEditor = nat
type_synonym Promise = nat
type_synonym error = string

text \<open>
  An \<open>ActiveServer\<close> is an object compared by identity (\<open>===\<close>, \<open>indexOf\<close>); the field
  \<open>objectId\<close> stands for that identity, \<open>pid\<close> for \<open>process.pid\<close>. The connection of
  a server is kept in the world state below, since it changes while the server object
  stays the same.
\<close>

record ActiveServer =
  objectId :: nat
  projectPath :: string
  pid :: nat

record RestartCounter =
  restarts :: nat
  timerId :: nat

text \<open>
  Atom's \<open>FilesystemChange\<close> is a union: a basic change (created, modified, deleted) with
  a path, or a rename with a path and an old path.
\<close>

datatype BasicAction = created | modified | deleted

datatype FilesystemChange =
    FilesystemChangeBasic BasicAction string
  | FilesystemChangeRename string string

fun path :: "FilesystemChange \<Rightarrow> string" where
  "path (FilesystemChangeBasic a p) = p"
| "path (FilesystemChangeRename p old) = p"

datatype FileChangeType = Created | Changed | Deleted

record FileEvent =
  uri :: string
  type :: FileChangeType

subsection \<open>The connection\<close>

text \<open>
  \<open>LanguageClientConnection\<close> extends \<open>EventEmitter\<close>: \<open>listeners\<close> are the registered
  (event name, listener) pairs in registration order, \<open>delivered\<close> the listener calls made
  so far, \<open>warnings\<close> the logger's \<open>warn\<close> calls, \<open>sent\<close> the messages handed to the
  transport.
\<close>

record LanguageClientConnection =
  isConnected :: bool
  listeners :: "(string \<times> nat) list"
  delivered :: "(nat \<times> string) list"
  warnings :: "string list"
  sent :: "string list"
  rpcDisposed :: bool

text \<open>The constructor: \<open>this.isConnected = true\<close>, no listener yet.\<close>

definition newConnection :: LanguageClientConnection where
  "newConnection =
     \<lparr>isConnected = True, listeners = [], delivered = [], warnings = [], sent = [],
      rpcDisposed = False\<rparr>"

text \<open>\<open>EventEmitter.emit\<close>: calls every listener registered for the event, in order.\<close>

definition emit :: "string \<Rightarrow> LanguageClientConnection \<Rightarrow> LanguageClientConnection" where
  "emit ev c =
     c\<lparr>delivered := delivered c @ map (\<lambda>(n, l). (l, ev)) (filter (\<lambda>(n, l). n = ev) (listeners c))\<rparr>"

text \<open>
  The callback the constructor registers with \<open>rpc.onClose\<close>: it clears the flag, logs a
  warning and emits \<open>close\<close>.
\<close>

definition rpc_onClose :: "LanguageClientConnection \<Rightarrow> LanguageClientConnection" where
  "rpc_onClose c =
     emit ''close''
       (c\<lparr>isConnected := False,
          warnings := warnings c @ [''The RPC connection closed unexpectedly'']\<rparr>)"

text \<open>
  What can happen to a connection: a listener is registered (\<open>on\<close>), a notification or a
  request is sent (\<open>exit\<close>, \<open>shutdown\<close>, \<open>didChangeWatchedFiles\<close> and the other typed
  wrappers all go through \<open>_sendNotification\<close> or \<open>_sendRequest\<close>), \<open>dispose\<close> is called,
  or the transport closes and the \<open>onClose\<close> callback runs.
\<close>

datatype ConnectionOp =
    On string nat
  | SendNotification string
  | SendRequest string
  | Dispose
  | TransportClosed

fun connection_step :: "ConnectionOp \<Rightarrow> LanguageClientConnection \<Rightarrow> LanguageClientConnection" where
  "connection_step (On ev l) c = c\<lparr>listeners := listeners c @ [(ev, l)]\<rparr>"
| "connection_step (SendNotification m) c = c\<lparr>sent := sent c @ [m]\<rparr>"
| "connection_step (SendRequest m) c = c\<lparr>sent := sent c @ [m]\<rparr>"
| "connection_step Dispose c = c\<lparr>rpcDisposed := True\<rparr>"
| "connection_step TransportClosed c = rpc_onClose c"

definition connection_run :: "ConnectionOp list \<Rightarrow> LanguageClientConnection \<Rightarrow> LanguageClientConnection" where
  "connection_run ops c = fold connection_step ops c"

text \<open>
  The values \<open>isConnected\<close> takes along a run, the initial one first, and the number of
  changes of the flag from \<open>a\<close> to \<open>b\<close> in such a history.
\<close>

fun connected_history :: "ConnectionOp list \<Rightarrow> LanguageClientConnection \<Rightarrow> bool list" where
  "connected_history [] c = [isConnected c]"
| "connected_history (op # ops) c = isConnected c # connected_history ops (connection_step op c)"

fun flips :: "bool \<Rightarrow> bool \<Rightarrow> bool list \<Rightarrow> nat" where
  "flips a b (x # y # zs) = (if x = a \<and> y = b then 1 else 0) + flips a b (y # zs)"
| "flips a b zs = 0"


section \<open>The server manager\<close>

subsection \<open>Collaborators and effects\<close>

text \<open>
  What the manager is given or calls but does not define: \<open>path.sep\<close> and \<open>path.join\<close>
  of the platform, the injected predicates \<open>_startForEditor\<close> and
  \<open>_changeWatchedFileFilter\<close>, \<open>Convert.atomFileEventToLSFileEvents\<close>, the path of an
  editor, whether the host offers \<open>atom.project.onDidChangeFiles\<close>, and whether the calls
  \<open>connection.exit()\<close>, \<open>connection.dispose()\<close> and \<open>process.kill()\<close> throw for a given
  server (\<open>Some e\<close>) or return (\<open>None\<close>). The logger and \<open>server.disposable.dispose()\<close>
  are taken not to throw.
\<close>

record Env =
  path_sep :: string
  path_join :: "string \<Rightarrow> string \<Rightarrow> string"
  startForEditor :: "TextEditor \<Rightarrow> bool"
  changeWatchedFileFilter :: "string \<Rightarrow> bool"
  atomFileEventToLSFileEvents :: "FilesystemChange \<Rightarrow> FileEvent list"
  getPath :: "TextEditor \<Rightarrow> string option"
  hasOnDidChangeFiles :: bool
  connection_exit :: "ActiveServer \<Rightarrow> error option"
  connection_dispose :: "ActiveServer \<Rightarrow> error option"
  process_kill :: "ActiveServer \<Rightarrow> error option"

datatype LogMessage =
    ServerStarting string
  | ServerStarted string nat
  | StoppingUnused nat
  | ServerStopping string
  | ServerStopped string nat
  | ServerTerminating string

text \<open>The calls the manager makes on its collaborators, in the order it makes them.\<close>

datatype Effect =
    StartServerCalled string Promise
  | ReportBusyWhile ActiveServer
  | DisposableDispose ActiveServer
  | ConnectionShutdown ActiveServer
  | ConnectionExit ActiveServer
  | ConnectionDispose ActiveServer
  | ProcessKill ActiveServer
  | DidChangeWatchedFiles ActiveServer "FileEvent option list"
  | LoggerDebug LogMessage

datatype Subscription =
    ObserveTextEditors
  | OnDidChangePaths
  | OnDidChangeFiles
  | EditorOnDidDestroy TextEditor

subsection \<open>State\<close>

text \<open>
  The fields of the class. The three \<open>Map\<close>s are association lists in insertion order
  (\<open>AList.update\<close> replaces in place or appends, as \<open>Map.set\<close> does); \<open>disposable\<close> holds
  the subscriptions added to the current \<open>CompositeDisposable\<close>.
\<close>

record ServerManager =
  activeServers :: "ActiveServer list"
  startingServerPromises :: "(string \<times> Promise) list"
  restartCounterPerProject :: "(string \<times> RestartCounter) list"
  stoppingServers :: "ActiveServer list"
  disposable :: "nat list"
  editorToServer :: "(TextEditor \<times> ActiveServer) list"
  normalizedProjectPaths :: "string list"
  isStarted :: bool

text \<open>
  The manager together with what surrounds it: the connection of every server, the
  collaborator calls made so far, the promises handed out by the injected start function,
  the suspended \<open>startServer\<close> calls (the promise each awaits and its \<open>projectPath\<close>
  argument), the suspended \<open>stopServer\<close> calls (awaiting \<open>shutdown\<close>), the clock in
  milliseconds and the pending \<open>setTimeout\<close> timers (id, due time, the project path the
  callback deletes), the subscriptions live in the host, and the host's project
  directories.
\<close>

record World = ServerManager +
  connections :: "ActiveServer \<Rightarrow> LanguageClientConnection"
  effects :: "Effect list"
  nextPromise :: nat
  awaitingStart :: "(Promise \<times> string) list"
  awaitingShutdown :: "ActiveServer list"
  clock :: nat
  timers :: "(nat \<times> nat \<times> string) list"
  nextTimer :: nat
  subscriptions :: "(nat \<times> Subscription) list"
  nextSubscription :: nat
  atomProjectDirectories :: "string list"

text \<open>How a promise-returning call has ended when control comes back to the caller.\<close>

datatype Completion = Fulfilled | Rejected error | Suspended

text \<open>
  The promise \<open>getServer\<close> returns: already resolved with a server or \<open>null\<close>, or settling
  with the start promise it names.
\<close>

datatype ServerPromise = Resolved "ActiveServer option" | Pending Promise

subsection \<open>Paths\<close>

definition normalizePath :: "Env \<Rightarrow> string \<Rightarrow> string" where
  "normalizePath env p =
     (if \<not> endsWith p (path_sep env) then path_join env p (path_sep env) else p)"

definition updateNormalizedProjectPaths :: "Env \<Rightarrow> World \<Rightarrow> World" where
  "updateNormalizedProjectPaths env w =
     w\<lparr>normalizedProjectPaths := map (normalizePath env) (atomProjectDirectories w)\<rparr>"

text \<open>
  \<open>find(...) || null\<close>: the first registered root the file path starts with; an empty
  string is falsy and gives \<open>null\<close> as well.
\<close>

definition determineProjectPath :: "Env \<Rightarrow> TextEditor \<Rightarrow> World \<Rightarrow> string option" where
  "determineProjectPath env textEditor w =
     (case getPath env textEditor of
        None \<Rightarrow> None
      | Some filePath \<Rightarrow>
          (case find (\<lambda>d. startsWith filePath d) (normalizedProjectPaths w) of
             None \<Rightarrow> None
           | Some d \<Rightarrow> if d = [] then None else Some d))"

text \<open>
  The spec's reading of the same step, in its words: among the registered roots that are
  a prefix of the file path, the longest one (the earliest of them when several are
  equally long).
\<close>

definition longest_matching_root :: "string list \<Rightarrow> string \<Rightarrow> string option" where
  "longest_matching_root roots filePath =
     (let matching = filter (\<lambda>d. prefix d filePath) roots
      in find (\<lambda>d. \<forall>d' \<in> set matching. length d' \<le> length d) matching)"

text \<open>The constructor: empty fields, then \<open>updateNormalizedProjectPaths\<close>.\<close>

definition newServerManager :: "Env \<Rightarrow> string list \<Rightarrow> World" where
  "newServerManager env directories =
     updateNormalizedProjectPaths env
       \<lparr>activeServers = [], startingServerPromises = [], restartCounterPerProject = [],
        stoppingServers = [], disposable = [], editorToServer = [],
        normalizedProjectPaths = [], isStarted = False,
        connections = (\<lambda>s. newConnection), effects = [], nextPromise = 0,
        awaitingStart = [], awaitingShutdown = [], clock = 0, timers = [], nextTimer = 0,
        subscriptions = [], nextSubscription = 0, atomProjectDirectories = directories\<rparr>"

subsection \<open>Listening\<close>

definition subscribe :: "Subscription \<Rightarrow> World \<Rightarrow> World" where
  "subscribe k w =
     w\<lparr>disposable := disposable w @ [nextSubscription w],
       subscriptions := subscriptions w @ [(nextSubscription w, k)],
       nextSubscription := nextSubscription w + 1\<rparr>"

text \<open>
  \<open>startListening\<close> replaces \<open>_disposable\<close> by a new \<open>CompositeDisposable\<close> (the old one
  is not disposed) and subscribes; it does not assign \<open>_isStarted\<close>. The calls the host
  makes back on these subscriptions are events of a run (below).
\<close>

definition startListening :: "Env \<Rightarrow> World \<Rightarrow> World" where
  "startListening env w =
     (if \<not> isStarted w then
        (let w1 = subscribe ObserveTextEditors (w\<lparr>disposable := []\<rparr>);
             w2 = subscribe OnDidChangePaths w1
         in if hasOnDidChangeFiles env then subscribe OnDidChangeFiles w2 else w2)
      else w)"

text \<open>
  \<open>stopListening\<close>: disposing \<open>_disposable\<close> removes the subscriptions it holds from the
  host.
\<close>

definition stopListening :: "World \<Rightarrow> World" where
  "stopListening w =
     (if isStarted w then
        w\<lparr>subscriptions := filter (\<lambda>(i, k). i \<notin> set (disposable w)) (subscriptions w),
          disposable := [], isStarted := False\<rparr>
      else w)"


subsection \<open>Starting a server\<close>

text \<open>
  \<open>startServer\<close> up to its \<open>await\<close>: the injected start function is called and returns a
  new promise, which is stored under the project path; the call is then suspended on it.
  The promise \<open>startServer\<close> itself returns settles as that promise does, so both are
  named by the same number.
\<close>

definition startServer :: "string \<Rightarrow> World \<Rightarrow> Promise \<times> World" where
  "startServer p w =
     (let startingPromise = nextPromise w
      in (startingPromise,
          w\<lparr>effects := effects w @ [LoggerDebug (ServerStarting p), StartServerCalled p startingPromise],
            nextPromise := nextPromise w + 1,
            startingServerPromises := AList.update p startingPromise (startingServerPromises w),
            awaitingStart := awaitingStart w @ [(startingPromise, p)]\<rparr>))"

text \<open>The rest of \<open>startServer\<close>: the \<open>try\<close> branch when the promise fulfils.\<close>

definition startServer_fulfilled :: "string \<Rightarrow> ActiveServer \<Rightarrow> World \<Rightarrow> (error + ActiveServer) \<times> World" where
  "startServer_fulfilled p startedActiveServer w =
     (Inr startedActiveServer,
      w\<lparr>activeServers := activeServers w @ [startedActiveServer],
        startingServerPromises := AList.delete p (startingServerPromises w),
        effects := effects w @ [LoggerDebug (ServerStarted p (pid startedActiveServer))]\<rparr>)"

text \<open>The \<open>catch\<close> branch when it rejects with \<open>e\<close>: the entry is deleted and \<open>e\<close> rethrown.\<close>

definition startServer_rejected :: "string \<Rightarrow> error \<Rightarrow> World \<Rightarrow> (error + ActiveServer) \<times> World" where
  "startServer_rejected p e w =
     (Inl e, w\<lparr>startingServerPromises := AList.delete p (startingServerPromises w)\<rparr>)"

text \<open>
  A start promise settles: the \<open>startServer\<close> call suspended on it, if any, runs to its
  end.
\<close>

definition startServer_resume :: "Promise \<Rightarrow> error + ActiveServer \<Rightarrow> World \<Rightarrow> (error + ActiveServer) option \<times> World" where
  "startServer_resume startingPromise settled w =
     (case map_of (awaitingStart w) startingPromise of
        None \<Rightarrow> (None, w)
      | Some p \<Rightarrow>
          (let w1 = w\<lparr>awaitingStart := AList.delete startingPromise (awaitingStart w)\<rparr>;
               (r, w2) = (case settled of
                            Inr startedActiveServer \<Rightarrow> startServer_fulfilled p startedActiveServer w1
                          | Inl e \<Rightarrow> startServer_rejected p e w1)
           in (Some r, w2)))"

definition getServer :: "Env \<Rightarrow> TextEditor \<Rightarrow> bool \<Rightarrow> World \<Rightarrow> ServerPromise \<times> World" where
  "getServer env textEditor shouldStart w =
     (case determineProjectPath env textEditor w of
        None \<Rightarrow> (Resolved None, w)
      | Some finalProjectPath \<Rightarrow>
          (case find (\<lambda>s. finalProjectPath = projectPath s) (activeServers w) of
             Some foundActiveServer \<Rightarrow> (Resolved (Some foundActiveServer), w)
           | None \<Rightarrow>
               (case map_of (startingServerPromises w) finalProjectPath of
                  Some startingPromise \<Rightarrow> (Pending startingPromise, w)
                | None \<Rightarrow>
                    if shouldStart \<and> startForEditor env textEditor
                    then (let (startingPromise, w') = startServer finalProjectPath w
                          in (Pending startingPromise, w'))
                    else (Resolved None, w))))"

subsection \<open>Stopping a server\<close>

text \<open>
  \<open>exitServer\<close>: the \<open>try\<close> block sends \<open>exit\<close> and disposes the connection when it is
  connected, the \<open>finally\<close> block kills the process. An exception of the \<open>finally\<close> block
  replaces one of the \<open>try\<close> block; the last log line is reached only when nothing was
  thrown. The result is the exception that leaves the function, if any.
\<close>

definition exitServer :: "Env \<Rightarrow> ActiveServer \<Rightarrow> World \<Rightarrow> error option \<times> World" where
  "exitServer env server w =
     (let (thrown, w1) =
            (if isConnected (connections w server) then
               (case connection_exit env server of
                  Some e \<Rightarrow> (Some e, w\<lparr>effects := effects w @ [ConnectionExit server]\<rparr>)
                | None \<Rightarrow>
                    (connection_dispose env server,
                     w\<lparr>effects := effects w @ [ConnectionExit server, ConnectionDispose server]\<rparr>))
             else (None, w));
          w2 = w1\<lparr>effects := effects w1 @ [ProcessKill server]\<rparr>
      in case process_kill env server of
           Some e \<Rightarrow> (Some e, w2)
         | None \<Rightarrow>
             (case thrown of
                Some e \<Rightarrow> (Some e, w2)
              | None \<Rightarrow>
                  (None,
                   w2\<lparr>effects := effects w2 @ [LoggerDebug (ServerStopped (projectPath server) (pid server))]\<rparr>)))"

text \<open>
  The loop of \<open>stopServer\<close> over the entries of \<open>_editorToServer\<close>, deleting those mapped
  to the server.
\<close>

definition deleteEditorsOf :: "ActiveServer \<Rightarrow> (TextEditor \<times> ActiveServer) list \<Rightarrow> (TextEditor \<times> ActiveServer) list" where
  "deleteEditorsOf server entries =
     fold (\<lambda>(editor, mappedServer) m. if mappedServer = server then AList.delete editor m else m)
       entries entries"

text \<open>
  The part of \<open>stopServer\<close> after the \<open>await\<close> of \<open>shutdown\<close> (reached at once when the
  connection is not connected).
\<close>

definition stopServer_resume :: "Env \<Rightarrow> ActiveServer \<Rightarrow> World \<Rightarrow> Completion \<times> World" where
  "stopServer_resume env server w =
     (let w1 = w\<lparr>editorToServer := deleteEditorsOf server (editorToServer w)\<rparr>;
          (thrown, w2) = exitServer env server w1
      in case thrown of
           Some e \<Rightarrow> (Rejected e, w2)
         | None \<Rightarrow>
             (Fulfilled,
              w2\<lparr>stoppingServers := splice1 (indexOf (stoppingServers w2) server) (stoppingServers w2)\<rparr>))"

text \<open>
  Modelled from the spec: the injected long-running-operation reporter
  \<open>_reportBusyWhile\<close> is not among the sources. The spec has it return the result of the
  action it is given and has \<open>stopServer\<close> remove the instance synchronously (as the
  comment in \<open>stopServer\<close>, "Immediately remove the server", says too); so the reporter
  calls the action at once and settles as the action's promise does. It appears below
  only as the \<open>ReportBusyWhile\<close> call recorded first.
\<close>

text \<open>\<open>stopServer\<close> as far as it runs before control returns to the caller.\<close>

definition stopServer :: "Env \<Rightarrow> ActiveServer \<Rightarrow> World \<Rightarrow> Completion \<times> World" where
  "stopServer env server w =
     (let w1 = w\<lparr>effects := effects w @ [ReportBusyWhile server, LoggerDebug (ServerStopping (projectPath server))],
                 activeServers := splice1 (indexOf (activeServers w) server) (activeServers w),
                 stoppingServers := stoppingServers w @ [server]\<rparr>;
          w2 = w1\<lparr>effects := effects w1 @ [DisposableDispose server]\<rparr>
      in if isConnected (connections w2 server)
         then (Suspended,
               w2\<lparr>effects := effects w2 @ [ConnectionShutdown server],
                  awaitingShutdown := awaitingShutdown w2 @ [server]\<rparr>)
         else stopServer_resume env server w2)"

text \<open>
  The awaited \<open>shutdown\<close> of a suspended \<open>stopServer(server)\<close> settles: rejected, the
  exception leaves \<open>stopServer\<close>; fulfilled, the rest runs.
\<close>

definition shutdown_settled :: "Env \<Rightarrow> ActiveServer \<Rightarrow> error option \<Rightarrow> World \<Rightarrow> Completion \<times> World" where
  "shutdown_settled env server rejection w =
     (if server \<in> set (awaitingShutdown w) then
        (let w1 = w\<lparr>awaitingShutdown := remove1 server (awaitingShutdown w)\<rparr>
         in case rejection of
              Some e \<Rightarrow> (Rejected e, w1)
            | None \<Rightarrow> stopServer_resume env server w1)
      else (Suspended, w))"

definition stopUnusedServers :: "Env \<Rightarrow> World \<Rightarrow> World" where
  "stopUnusedServers env w =
     (let usedServers = set (map snd (editorToServer w));
          unusedServers = filter (\<lambda>s. s \<notin> usedServers) (activeServers w)
      in if length unusedServers > 0
         then fold (\<lambda>s w'. snd (stopServer env s w')) unusedServers
                (w\<lparr>effects := effects w @ [LoggerDebug (StoppingUnused (length unusedServers))]\<rparr>)
         else w)"

definition clearTimeout :: "nat \<Rightarrow> World \<Rightarrow> World" where
  "clearTimeout tid w = w\<lparr>timers := filter (\<lambda>(i, due, p). i \<noteq> tid) (timers w)\<rparr>"

text \<open>
  \<open>stopAllServers\<close>: the counters and their timers are cleared; then \<open>map\<close> walks
  \<open>_activeServers\<close> itself by index, from 0 to the length it had at the start, calling
  \<open>stopServer\<close> on the element found at each index that is still present, while every
  such call removes an element from that same array.
\<close>

definition stopAllServers :: "Env \<Rightarrow> World \<Rightarrow> World" where
  "stopAllServers env w =
     (let w1 = fold (\<lambda>(p, restartCounter) w'.
                       (clearTimeout (timerId restartCounter) w')
                         \<lparr>restartCounterPerProject := AList.delete p (restartCounterPerProject w')\<rparr>)
                 (restartCounterPerProject w) w
      in fold (\<lambda>k w'. if k < length (activeServers w')
                       then snd (stopServer env (activeServers w' ! k) w') else w')
           [0..<length (activeServers w1)] w1)"

text \<open>
  \<open>restartAllServers\<close> up to its \<open>await\<close>, and the rest, which runs once every
  \<open>stopServer\<close> promise has fulfilled.
\<close>

definition restartAllServers :: "Env \<Rightarrow> World \<Rightarrow> World" where
  "restartAllServers env w = stopAllServers env (stopListening w)"

definition restartAllServers_resume :: "Env \<Rightarrow> World \<Rightarrow> World" where
  "restartAllServers_resume env w = startListening env (w\<lparr>editorToServer := []\<rparr>)"

definition terminate :: "Env \<Rightarrow> World \<Rightarrow> error option \<times> World" where
  "terminate env w =
     fold (\<lambda>server (thrown, w').
             case thrown of
               Some e \<Rightarrow> (Some e, w')
             | None \<Rightarrow>
                 exitServer env server
                   (w'\<lparr>effects := effects w' @ [LoggerDebug (ServerTerminating (projectPath server))]\<rparr>))
       (stoppingServers w) (None, w)"

subsection \<open>The restart limit\<close>

definition setTimeout :: "nat \<Rightarrow> string \<Rightarrow> World \<Rightarrow> nat \<times> World" where
  "setTimeout delay p w =
     (nextTimer w,
      w\<lparr>timers := timers w @ [(nextTimer w, clock w + delay, p)], nextTimer := nextTimer w + 1\<rparr>)"

definition hasServerReachedRestartLimit :: "ActiveServer \<Rightarrow> World \<Rightarrow> bool \<times> World" where
  "hasServerReachedRestartLimit server w =
     (let (restartCounter, w1) =
            (case map_of (restartCounterPerProject w) (projectPath server) of
               Some rc \<Rightarrow> (rc, w)
             | None \<Rightarrow>
                 (let (tid, w') = setTimeout (3 * 60 * 1000) (projectPath server) w;
                      rc = \<lparr>restarts = 0, timerId = tid\<rparr>
                  in (rc, w'\<lparr>restartCounterPerProject :=
                               AList.update (projectPath server) rc (restartCounterPerProject w')\<rparr>)));
          incremented = restartCounter\<lparr>restarts := restarts restartCounter + 1\<rparr>
      in (restarts incremented > 5,
          w1\<lparr>restartCounterPerProject :=
               AList.update (projectPath server) incremented (restartCounterPerProject w1)\<rparr>))"

text \<open>The callback of a timer: it deletes the counter of its project path.\<close>

definition timer_fired :: "nat \<Rightarrow> World \<Rightarrow> World" where
  "timer_fired tid w =
     (case find (\<lambda>(i, due, p). i = tid) (timers w) of
        None \<Rightarrow> w
      | Some (i, due, p) \<Rightarrow>
          w\<lparr>timers := filter (\<lambda>(j, due', p'). j \<noteq> tid) (timers w),
            restartCounterPerProject := AList.delete p (restartCounterPerProject w)\<rparr>)"

text \<open>Time passes: the clock advances and every timer then due runs its callback.\<close>

definition elapse :: "nat \<Rightarrow> World \<Rightarrow> World" where
  "elapse ms w =
     (let w1 = w\<lparr>clock := clock w + ms\<rparr>
      in fold (\<lambda>(i, due, p) w'. if due \<le> clock w1 then timer_fired i w' else w') (timers w1) w1)"

subsection \<open>Project paths and watched files\<close>

text \<open>
  \<open>projectPathsChanged\<close> up to its \<open>await\<close>; the rest is \<open>updateNormalizedProjectPaths\<close>.
\<close>

definition projectPathsChanged :: "Env \<Rightarrow> string list \<Rightarrow> World \<Rightarrow> World" where
  "projectPathsChanged env projectPaths w =
     (let pathsSet = set (map (normalizePath env) projectPaths);
          serversToStop = filter (\<lambda>s. projectPath s \<notin> pathsSet) (activeServers w)
      in fold (\<lambda>s w'. snd (stopServer env s w')) serversToStop w)"

text \<open>The inner loop of \<open>projectFilesChanged\<close>: the \<open>changes\<close> array built for one server.\<close>

definition watchedChanges :: "Env \<Rightarrow> ActiveServer \<Rightarrow> FilesystemChange list \<Rightarrow> FileEvent option list" where
  "watchedChanges env activeServer fileEvents =
     fold (\<lambda>fileEvent changes.
             (let changes1 =
                    (if startsWith (path fileEvent) (projectPath activeServer)
                        \<and> changeWatchedFileFilter env (path fileEvent)
                     then changes @ [at_index (atomFileEventToLSFileEvents env fileEvent) 0]
                     else changes)
              in case fileEvent of
                   FilesystemChangeRename newPath oldPath \<Rightarrow>
                     (if startsWith oldPath (projectPath activeServer)
                         \<and> changeWatchedFileFilter env oldPath
                      then changes1 @ [at_index (atomFileEventToLSFileEvents env fileEvent) 1]
                      else changes1)
                 | FilesystemChangeBasic a p \<Rightarrow> changes1))
       fileEvents []"

definition projectFilesChanged :: "Env \<Rightarrow> FilesystemChange list \<Rightarrow> World \<Rightarrow> World" where
  "projectFilesChanged env fileEvents w =
     (if length (activeServers w) = 0 then w
      else fold (\<lambda>activeServer w'.
                   (let changes = watchedChanges env activeServer fileEvents
                    in if length changes > 0
                       then w'\<lparr>effects := effects w' @ [DidChangeWatchedFiles activeServer changes]\<rparr>
                       else w'))
             (activeServers w) w)"


text \<open>
  The spec's reading of the routing, in its words: an event contributes its first
  translated record when its path lies under the server's root and passes the filter,
  and, for a rename, its second translated record when the old path does.
\<close>

definition eligible :: "Env \<Rightarrow> ActiveServer \<Rightarrow> string \<Rightarrow> bool" where
  "eligible env server p = (prefix (projectPath server) p \<and> changeWatchedFileFilter env p)"

fun forwarded_records :: "Env \<Rightarrow> ActiveServer \<Rightarrow> FilesystemChange \<Rightarrow> FileEvent option list" where
  "forwarded_records env server (FilesystemChangeBasic a p) =
     (if eligible env server p
      then [at_index (atomFileEventToLSFileEvents env (FilesystemChangeBasic a p)) 0] else [])"
| "forwarded_records env server (FilesystemChangeRename p old) =
     (if eligible env server p
      then [at_index (atomFileEventToLSFileEvents env (FilesystemChangeRename p old)) 0] else [])
     @ (if eligible env server old
        then [at_index (atomFileEventToLSFileEvents env (FilesystemChangeRename p old)) 1] else [])"

subsection \<open>Editors\<close>

text \<open>
  \<open>_handleTextEditor\<close> up to its \<open>await\<close> of \<open>getServer\<close>, and the rest, run with the
  server the promise resolved with: the editor is mapped to it and its \<open>onDidDestroy\<close>
  subscription is added to \<open>_disposable\<close>.
\<close>

definition handleTextEditor :: "Env \<Rightarrow> TextEditor \<Rightarrow> World \<Rightarrow> ServerPromise option \<times> World" where
  "handleTextEditor env editor w =
     (if map_of (editorToServer w) editor = None
      then (let (r, w') = getServer env editor True w in (Some r, w'))
      else (None, w))"

definition handleTextEditor_resume :: "TextEditor \<Rightarrow> ActiveServer option \<Rightarrow> World \<Rightarrow> World" where
  "handleTextEditor_resume editor server w =
     (case server of
        None \<Rightarrow> w
      | Some s \<Rightarrow>
          subscribe (EditorOnDidDestroy editor)
            (w\<lparr>editorToServer := AList.update editor s (editorToServer w)\<rparr>))"

text \<open>The \<open>onDidDestroy\<close> callback of a mapped editor.\<close>

definition editorDestroyed :: "Env \<Rightarrow> TextEditor \<Rightarrow> World \<Rightarrow> World" where
  "editorDestroyed env editor w =
     stopUnusedServers env (w\<lparr>editorToServer := AList.delete editor (editorToServer w)\<rparr>)"

definition handleGrammarChange :: "Env \<Rightarrow> TextEditor \<Rightarrow> World \<Rightarrow> World" where
  "handleGrammarChange env editor w =
     (if startForEditor env editor then snd (handleTextEditor env editor w)
      else (case map_of (editorToServer w) editor of
              None \<Rightarrow> w
            | Some server \<Rightarrow>
                stopUnusedServers env
                  (w\<lparr>editorToServer := AList.delete editor (editorToServer w)\<rparr>)))"

subsection \<open>Runs\<close>

text \<open>
  Everything runs on one thread: between two suspension points a method runs alone. An
  event is a call of a method from outside (it runs up to its first suspension point), a
  promise the manager awaits being settled (the suspended call runs on), time passing, or
  a transport closing. A run is a sequence of events. The callbacks the host makes on
  the subscriptions of \<open>startListening\<close> (\<open>observeTextEditors\<close> and the grammar listener
  it installs, \<open>projectPathsChanged\<close>, \<open>projectFilesChanged\<close>) appear as the events
  \<open>HandleTextEditor\<close>, \<open>GrammarChanged\<close>, \<open>ProjectPathsChanged\<close> and
  \<open>ProjectFilesChanged\<close>; the injected start function appears through the promises it
  returns, settled by \<open>StartFulfilled\<close> and \<open>StartRejected\<close>.
\<close>

datatype Event =
    GetServer TextEditor bool
  | StartServer string
  | StartFulfilled Promise ActiveServer
  | StartRejected Promise error
  | StopServer ActiveServer
  | ShutdownFulfilled ActiveServer
  | ShutdownRejected ActiveServer error
  | StopUnusedServers
  | StopAllServers
  | RestartAllServers
  | RestartAllServersResume
  | ExitServer ActiveServer
  | Terminate
  | HasServerReachedRestartLimit ActiveServer
  | Elapse nat
  | ProjectPathsChanged "string list"
  | ProjectPathsChangedResume
  | ProjectFilesChanged "FilesystemChange list"
  | HandleTextEditor TextEditor
  | HandleTextEditorResume TextEditor "ActiveServer option"
  | EditorDestroyed TextEditor
  | GrammarChanged TextEditor
  | StartListening
  | StopListening
  | ConnectionClosed ActiveServer

fun step :: "Env \<Rightarrow> Event \<Rightarrow> World \<Rightarrow> World" where
  "step env (GetServer editor shouldStart) w = snd (getServer env editor shouldStart w)"
| "step env (StartServer p) w = snd (startServer p w)"
| "step env (StartFulfilled pr s) w = snd (startServer_resume pr (Inr s) w)"
| "step env (StartRejected pr e) w = snd (startServer_resume pr (Inl e) w)"
| "step env (StopServer s) w = snd (stopServer env s w)"
| "step env (ShutdownFulfilled s) w = snd (shutdown_settled env s None w)"
| "step env (ShutdownRejected s e) w = snd (shutdown_settled env s (Some e) w)"
| "step env StopUnusedServers w = stopUnusedServers env w"
| "step env StopAllServers w = stopAllServers env w"
| "step env RestartAllServers w = restartAllServers env w"
| "step env RestartAllServersResume w = restartAllServers_resume env w"
| "step env (ExitServer s) w = snd (exitServer env s w)"
| "step env Terminate w = snd (terminate env w)"
| "step env (HasServerReachedRestartLimit s) w = snd (hasServerReachedRestartLimit s w)"
| "step env (Elapse ms) w = elapse ms w"
| "step env (ProjectPathsChanged ps) w = projectPathsChanged env ps (w\<lparr>atomProjectDirectories := ps\<rparr>)"
| "step env ProjectPathsChangedResume w = updateNormalizedProjectPaths env w"
| "step env (ProjectFilesChanged evs) w = projectFilesChanged env evs w"
| "step env (HandleTextEditor editor) w = snd (handleTextEditor env editor w)"
| "step env (HandleTextEditorResume editor s) w = handleTextEditor_resume editor s w"
| "step env (EditorDestroyed editor) w = editorDestroyed env editor w"
| "step env (GrammarChanged editor) w = handleGrammarChange env editor w"
| "step env StartListening w = startListening env w"
| "step env StopListening w = stopListening w"
| "step env (ConnectionClosed s) w = w\<lparr>connections := (connections w)(s := rpc_onClose (connections w s))\<rparr>"

definition run :: "Env \<Rightarrow> Event list \<Rightarrow> World \<Rightarrow> World" where
  "run env evs w = fold (step env) evs w"

text \<open>
  Runs in which \<open>startServer\<close> is called from outside only for a path that has neither an
  active server nor a pending start at that moment (as in the restart after a crash:
  \<open>stopServer\<close>, then \<open>startServer\<close>; \<open>getServer\<close> itself never does otherwise), and the
  injected start function resolves with an instance whose \<open>projectPath\<close> is the path it
  was called with.
\<close>

fun guarded_starts :: "Event \<Rightarrow> World \<Rightarrow> bool" where
  "guarded_starts (StartServer p) w =
     (p \<notin> projectPath ` set (activeServers w) \<and> map_of (startingServerPromises w) p = None)"
| "guarded_starts (StartFulfilled pr s) w =
     (case map_of (awaitingStart w) pr of None \<Rightarrow> True | Some p \<Rightarrow> projectPath s = p)"
| "guarded_starts ev w = True"

text \<open>
  Runs in which every path handed to the start function from outside ends with the
  separator, and the start function resolves with an instance for the path it was
  called with.
\<close>

fun separator_terminated_starts :: "Env \<Rightarrow> Event \<Rightarrow> World \<Rightarrow> bool" where
  "separator_terminated_starts env (StartServer p) w = endsWith p (path_sep env)"
| "separator_terminated_starts env (StartFulfilled pr s) w =
     (case map_of (awaitingStart w) pr of None \<Rightarrow> True | Some p \<Rightarrow> projectPath s = p)"
| "separator_terminated_starts env ev w = True"

text \<open>A condition holds of every event of a run, in the state the event meets.\<close>

fun every_event :: "(Event \<Rightarrow> World \<Rightarrow> bool) \<Rightarrow> Env \<Rightarrow> Event list \<Rightarrow> World \<Rightarrow> bool" where
  "every_event ok env [] w = True"
| "every_event ok env (ev # evs) w = (ok ev w \<and> every_event ok env evs (step env ev w))"

text \<open>
  A step that starts nothing: servers are at most removed from the registry, the pending
  starts and the suspended \<open>startServer\<close> calls stay as they are, and the project roots
  are either kept or recomputed by normalisation.
\<close>

definition quiet :: "Env \<Rightarrow> World \<Rightarrow> World \<Rightarrow> bool" where
  "quiet env w w' \<longleftrightarrow>
     subseq (activeServers w') (activeServers w)
     \<and> startingServerPromises w' = startingServerPromises w
     \<and> awaitingStart w' = awaitingStart w
     \<and> nextPromise w' = nextPromise w
     \<and> (normalizedProjectPaths w' = normalizedProjectPaths w
        \<or> (\<exists>ds. normalizedProjectPaths w' = map (normalizePath env) ds))"

text \<open>
  The invariant behind the one-server-per-path property: the active servers have
  distinct project paths, the pending-start table has distinct keys, the suspended
  \<open>startServer\<close> calls await distinct promises handed out earlier, every such call owns
  the table entry of its path while no active server has that path, and every table
  entry belongs to such a call.
\<close>

definition start_inv :: "World \<Rightarrow> bool" where
  "start_inv w \<longleftrightarrow>
     distinct (map projectPath (activeServers w))
     \<and> distinct (map fst (startingServerPromises w))
     \<and> distinct (map fst (awaitingStart w))
     \<and> (\<forall>(pr, p) \<in> set (awaitingStart w).
          pr < nextPromise w
          \<and> map_of (startingServerPromises w) p = Some pr
          \<and> p \<notin> projectPath ` set (activeServers w))
     \<and> (\<forall>(p, pr) \<in> set (startingServerPromises w). (pr, p) \<in> set (awaitingStart w))"


text \<open>The number of calls of the injected start function for a path so far.\<close>

definition start_calls :: "string \<Rightarrow> World \<Rightarrow> nat" where
  "start_calls p w =
     length (filter (\<lambda>x. case x of StartServerCalled q pr \<Rightarrow> q = p | _ \<Rightarrow> False) (effects w))"

text \<open>
  Consecutive checks of the restart limit for one server, each after the given number
  of milliseconds has passed, with their results.
\<close>

fun attempts :: "ActiveServer \<Rightarrow> nat list \<Rightarrow> World \<Rightarrow> bool list \<times> World" where
  "attempts server [] w = ([], w)"
| "attempts server (ms # rest) w =
     (let (r, w1) = hasServerReachedRestartLimit server (elapse ms w);
          (rs, w2) = attempts server rest w1
      in (r # rs, w2))"

subsection \<open>Sample collaborators\<close>

text \<open>
  Modelled from the spec: \<open>Convert.atomFileEventToLSFileEvents\<close> is not among the
  sources. A change translates to one record of its kind, a rename to two (delete-old,
  create-new). It is used for concrete instances only; the theorems take the
  translation as a parameter.
\<close>

fun convert_model :: "FilesystemChange \<Rightarrow> FileEvent list" where
  "convert_model (FilesystemChangeBasic created p) = [\<lparr>uri = p, type = Created\<rparr>]"
| "convert_model (FilesystemChangeBasic modified p) = [\<lparr>uri = p, type = Changed\<rparr>]"
| "convert_model (FilesystemChangeBasic deleted p) = [\<lparr>uri = p, type = Deleted\<rparr>]"
| "convert_model (FilesystemChangeRename p old) =
     [\<lparr>uri = old, type = Deleted\<rparr>, \<lparr>uri = p, type = Created\<rparr>]"

text \<open>
  A POSIX-like environment for concrete instances: the separator is \<open>/\<close>, joining a
  path with the separator appends it, editor 0 edits \<open>/a/b/c.txt\<close>, editor 1 edits
  \<open>/a/d.txt\<close>, editor 3 edits \<open>/c/e.txt\<close>, every other editor is unsaved, every editor
  and every file is eligible, no collaborator throws.
\<close>

definition sampleEnv :: Env where
  "sampleEnv =
     \<lparr>path_sep = ''/'', path_join = (\<lambda>a b. a @ b), startForEditor = (\<lambda>e. True),
      changeWatchedFileFilter = (\<lambda>p. True), atomFileEventToLSFileEvents = convert_model,
      getPath = (\<lambda>e. if e = 0 then Some ''/a/b/c.txt'' else if e = 1 then Some ''/a/d.txt''
                     else if e = 3 then Some ''/c/e.txt'' else None),
      hasOnDidChangeFiles = True, connection_exit = (\<lambda>s. None),
      connection_dispose = (\<lambda>s. None), process_kill = (\<lambda>s. None)\<rparr>"

definition serverA :: ActiveServer where
  "serverA = \<lparr>objectId = 1, projectPath = ''/a/'', pid = 101\<rparr>"

definition serverB :: ActiveServer where
  "serverB = \<lparr>objectId = 2, projectPath = ''/a/'', pid = 102\<rparr>"

definition serverC :: ActiveServer where
  "serverC = \<lparr>objectId = 3, projectPath = ''/c/'', pid = 103\<rparr>"

text \<open>
  The invariant behind separator-terminated project paths: the project roots, the paths
  of the active servers and the paths of the suspended \<open>startServer\<close> calls all end with
  the separator.
\<close>

definition separator_inv :: "Env \<Rightarrow> World \<Rightarrow> bool" where
  "separator_inv env w \<longleftrightarrow>
     (\<forall>d \<in> set (normalizedProjectPaths w). endsWith d (path_sep env))
     \<and> (\<forall>s \<in> set (activeServers w). endsWith (projectPath s) (path_sep env))
     \<and> (\<forall>(pr, p) \<in> set (awaitingStart w). endsWith p (path_sep env))"

text \<open>
  A restart counter is running for a project path: the counter holds \<open>k\<close> attempts and
  names the timer \<open>tid\<close>, which is pending with due time \<open>due\<close> and is the only pending
  timer with that id or for that path.
\<close>

definition counting :: "string \<Rightarrow> nat \<Rightarrow> nat \<Rightarrow> nat \<Rightarrow> World \<Rightarrow> bool" where
  "counting p k tid due w \<longleftrightarrow>
     map_of (restartCounterPerProject w) p = Some \<lparr>restarts = k, timerId = tid\<rparr>
     \<and> (tid, due, p) \<in> set (timers w)
     \<and> (\<forall>(i, d, q) \<in> set (timers w). i = tid \<or> q = p \<longrightarrow> (i, d, q) = (tid, due, p))"

section \<open>Path normalisation\<close>

lemma endsWith_self_append: "endsWith (p @ s) s"
  by (simp add: endsWith_def suffix_def)

lemma normalizePath_endsWith:
  "endsWith (path_join env p (path_sep env)) (path_sep env) \<Longrightarrow>
   endsWith (normalizePath env p) (path_sep env)"
  by (simp add: normalizePath_def)

lemma normalizePath_fixed:
  "endsWith q (path_sep env) \<Longrightarrow> normalizePath env q = q"
  by (simp add: normalizePath_def)


section \<open>The connection flag\<close>

lemma connection_step_isConnected:
  "isConnected (connection_step x c) = (isConnected c \<and> x \<noteq> TransportClosed)"
  by (cases x) (simp_all add: rpc_onClose_def emit_def)

lemma connection_run_isConnected:
  "isConnected (connection_run xs c) = (isConnected c \<and> TransportClosed \<notin> set xs)"
  unfolding connection_run_def
  by (induction xs arbitrary: c) (auto simp: connection_step_isConnected)

lemma flips_Cons:
  "flips a b (x # connected_history xs c) =
     (if x = a \<and> isConnected c = b then 1 else 0) + flips a b (connected_history xs c)"
  by (cases xs) simp_all

lemma flips_down:
  "flips True False (connected_history xs c) =
     (if isConnected c \<and> TransportClosed \<in> set xs then 1 else 0)"
proof (induction xs arbitrary: c)
  case Nil
  show ?case by simp
next
  case (Cons x xs)
  show ?case
    by (simp add: flips_Cons Cons.IH connection_step_isConnected) auto
qed

lemma flips_up: "flips False True (connected_history xs c) = 0"
proof (induction xs arbitrary: c)
  case Nil
  show ?case by simp
next
  case (Cons x xs)
  show ?case
    by (simp add: flips_Cons Cons.IH connection_step_isConnected)
qed

lemma rpc_onClose_delivered:
  "delivered (rpc_onClose c) =
     delivered c @ map (\<lambda>(n, l). (l, ''close'')) (filter (\<lambda>(n, l). n = ''close'') (listeners c))"
  by (simp add: rpc_onClose_def emit_def)

text \<open>
  C9. A connection is connected when constructed. After any sequence of operations it is
  connected exactly when it was before and the transport has not closed in between, so a
  closed connection never becomes connected again; along a run from construction the
  flag changes from true to false once if the transport closes and never otherwise, and
  never from false to true. The close callback clears the flag and calls every listener
  registered for \<open>close\<close>.
\<close>

theorem isConnected_closes_once:
  "isConnected newConnection
   \<and> isConnected (connection_run xs c) = (isConnected c \<and> TransportClosed \<notin> set xs)
   \<and> flips True False (connected_history xs newConnection) = (if TransportClosed \<in> set xs then 1 else 0)
   \<and> flips False True (connected_history xs c) = 0
   \<and> \<not> isConnected (rpc_onClose c)
   \<and> delivered (rpc_onClose c) =
       delivered c @ map (\<lambda>(n, l). (l, ''close'')) (filter (\<lambda>(n, l). n = ''close'') (listeners c))"
proof -
  have new: "isConnected newConnection"
    by (simp add: newConnection_def)
  have closed: "\<not> isConnected (rpc_onClose c)"
    by (simp add: rpc_onClose_def emit_def)
  from new closed show ?thesis
    by (simp add: connection_run_isConnected flips_down flips_up rpc_onClose_delivered)
qed

section \<open>Forced termination\<close>

lemma exitServer_effects:
  "effects (snd (exitServer env server w)) =
     effects w
     @ (if isConnected (connections w server)
        then ConnectionExit server # (if connection_exit env server = None then [ConnectionDispose server] else [])
        else [])
     @ ProcessKill server
       # (if fst (exitServer env server w) = None
          then [LoggerDebug (ServerStopped (projectPath server) (pid server))] else [])"
  by (auto simp: exitServer_def Let_def split: option.splits)

lemma exitServer_thrown:
  "fst (exitServer env server w) =
     (case process_kill env server of
        Some e \<Rightarrow> Some e
      | None \<Rightarrow>
          if isConnected (connections w server)
          then (case connection_exit env server of Some e \<Rightarrow> Some e | None \<Rightarrow> connection_dispose env server)
          else None)"
  by (auto simp: exitServer_def Let_def split: option.splits)

text \<open>
  C5. Whatever the collaborators do (whether or not \<open>exit\<close>, \<open>dispose\<close> or \<open>kill\<close>
  throw), \<open>exitServer\<close> calls \<open>kill\<close> on the server's process: the calls it adds are, when
  the connection is connected, \<open>exit\<close> and then (unless \<open>exit\<close> threw) \<open>dispose\<close>, and in
  every case \<open>kill\<close> after them.
\<close>

theorem exitServer_always_kills:
  "ProcessKill server \<in> set (drop (length (effects w)) (effects (snd (exitServer env server w))))
   \<and> (\<exists>logged.
        effects (snd (exitServer env server w)) =
          effects w
          @ (if isConnected (connections w server)
             then ConnectionExit server
                  # (if connection_exit env server = None then [ConnectionDispose server] else [])
             else [])
          @ ProcessKill server # logged)"
proof -
  let ?polite = "if isConnected (connections w server)
                 then ConnectionExit server
                      # (if connection_exit env server = None then [ConnectionDispose server] else [])
                 else []"
  let ?logged = "if fst (exitServer env server w) = None
                 then [LoggerDebug (ServerStopped (projectPath server) (pid server))] else []"
  have eq: "effects (snd (exitServer env server w)) = effects w @ ?polite @ ProcessKill server # ?logged"
    by (rule exitServer_effects)
  have "drop (length (effects w)) (effects (snd (exitServer env server w)))
          = ?polite @ ProcessKill server # ?logged"
    by (simp only: eq drop_append, simp)
  then have "ProcessKill server \<in> set (drop (length (effects w)) (effects (snd (exitServer env server w))))"
    by simp
  with eq show ?thesis by blast
qed


section \<open>Removing from an array\<close>

lemma indexOf_neg: "x \<notin> set xs \<Longrightarrow> indexOf xs x = - 1"
  by (induction xs) (auto simp: Let_def)

lemma indexOf_bounds: "x \<in> set xs \<Longrightarrow> 0 \<le> indexOf xs x \<and> indexOf xs x < int (length xs)"
  by (induction xs) (auto simp: Let_def)

lemma indexOf_remove1:
  "x \<in> set xs \<Longrightarrow>
   take (nat (indexOf xs x)) xs @ drop (Suc (nat (indexOf xs x))) xs = remove1 x xs"
proof (induction xs)
  case Nil
  then show ?case by simp
next
  case (Cons y ys)
  show ?case
  proof (cases "y = x")
    case True
    then show ?thesis by simp
  next
    case False
    with Cons.prems have mem: "x \<in> set ys" by simp
    from indexOf_bounds[OF mem] have b: "0 \<le> indexOf ys x" by simp
    have "nat (indexOf ys x + 1) = Suc (nat (indexOf ys x))" using b by simp
    with False b Cons.IH[OF mem] show ?thesis by (simp add: Let_def)
  qed
qed

lemma splice1_minus_one: "splice1 (- 1) xs = butlast xs"
proof (cases xs rule: rev_cases)
  case Nil
  then show ?thesis by (simp add: splice1_def)
next
  case (snoc ys y)
  have a: "max (int (length (ys @ [y])) + - 1) 0 = int (length ys)" by simp
  have b: "min 1 (int (length (ys @ [y])) - int (length ys)) = 1" by simp
  have "splice1 (- 1) (ys @ [y]) = take (length ys) (ys @ [y]) @ drop (nat (int (length ys) + 1)) (ys @ [y])"
    unfolding splice1_def Let_def a b by simp
  also have "nat (int (length ys) + 1) = Suc (length ys)" by linarith
  finally show ?thesis using snoc by simp
qed

lemma splice1_indexOf:
  "splice1 (indexOf xs x) xs = (if x \<in> set xs then remove1 x xs else butlast xs)"
proof (cases "x \<in> set xs")
  case True
  from indexOf_bounds[OF True] have b: "0 \<le> indexOf xs x" "indexOf xs x < int (length xs)" by simp_all
  have "splice1 (indexOf xs x) xs
          = take (nat (indexOf xs x)) xs @ drop (nat (indexOf xs x + 1)) xs"
    using b by (simp add: splice1_def Let_def min_def)
  also have "nat (indexOf xs x + 1) = Suc (nat (indexOf xs x))" using b by simp
  finally show ?thesis using True indexOf_remove1[OF True] by simp
next
  case False
  then show ?thesis by (simp add: indexOf_neg splice1_minus_one)
qed

lemma subseq_remove1: "subseq (remove1 x xs) xs"
  by (induction xs) auto

lemma subseq_butlast: "subseq (butlast xs) xs"
  by (induction xs) auto

lemma subseq_splice1_indexOf: "subseq (splice1 (indexOf xs x) xs) xs"
  by (simp add: splice1_indexOf subseq_remove1 subseq_butlast)

lemma subseq_distinct: "subseq xs ys \<Longrightarrow> distinct ys \<Longrightarrow> distinct xs"
  by (induction rule: list_emb.induct) (auto dest: list_emb_set)

lemma subseq_set: "subseq xs ys \<Longrightarrow> set xs \<subseteq> set ys"
  by (auto dest: list_emb_set)

lemma subseq_distinct_map: "subseq xs ys \<Longrightarrow> distinct (map f ys) \<Longrightarrow> distinct (map f xs)"
  using subseq_distinct subseq_map by blast



section \<open>Steps that start nothing\<close>

lemma quiet_refl: "quiet env w w"
  by (simp add: quiet_def)

lemma quiet_trans: "quiet env w w1 \<Longrightarrow> quiet env w1 w2 \<Longrightarrow> quiet env w w2"
  unfolding quiet_def by (metis subseq_order.order_trans)

lemma quiet_exitServer: "quiet env w (snd (exitServer env s w))"
  by (auto simp: quiet_def exitServer_def Let_def split: option.splits)

lemma quiet_editorToServer: "quiet env w (w\<lparr>editorToServer := ed\<rparr>)"
  by (simp add: quiet_def)

lemma quiet_stopServer_resume: "quiet env w (snd (stopServer_resume env s w))"
proof -
  let ?w1 = "w\<lparr>editorToServer := deleteEditorsOf s (editorToServer w)\<rparr>"
  have a: "quiet env w ?w1" by (rule quiet_editorToServer)
  have b: "quiet env ?w1 (snd (exitServer env s ?w1))" by (rule quiet_exitServer)
  have c: "quiet env (snd (exitServer env s ?w1)) (snd (stopServer_resume env s w))"
    by (cases "exitServer env s ?w1")
       (auto simp: stopServer_resume_def Let_def quiet_def split: option.splits)
  from a b c show ?thesis by (blast intro: quiet_trans)
qed

lemma stopServer_disconnected:
  "\<not> isConnected (connections w s) \<Longrightarrow>
   stopServer env s w =
     stopServer_resume env s
       (w\<lparr>activeServers := splice1 (indexOf (activeServers w) s) (activeServers w),
          stoppingServers := stoppingServers w @ [s],
          effects := effects w @ [ReportBusyWhile s, LoggerDebug (ServerStopping (projectPath s)),
                                  DisposableDispose s]\<rparr>)"
  by (simp add: stopServer_def Let_def)

lemma stopServer_connected:
  "isConnected (connections w s) \<Longrightarrow>
   stopServer env s w =
     (Suspended,
      w\<lparr>activeServers := splice1 (indexOf (activeServers w) s) (activeServers w),
        stoppingServers := stoppingServers w @ [s],
        effects := effects w @ [ReportBusyWhile s, LoggerDebug (ServerStopping (projectPath s)),
                                DisposableDispose s, ConnectionShutdown s],
        awaitingShutdown := awaitingShutdown w @ [s]\<rparr>)"
  by (simp add: stopServer_def Let_def)

lemma quiet_stopServer: "quiet env w (snd (stopServer env s w))"
proof (cases "isConnected (connections w s)")
  case True
  then show ?thesis
    by (simp add: stopServer_connected quiet_def subseq_splice1_indexOf)
next
  case False
  let ?w2 = "w\<lparr>activeServers := splice1 (indexOf (activeServers w) s) (activeServers w),
               stoppingServers := stoppingServers w @ [s],
               effects := effects w @ [ReportBusyWhile s, LoggerDebug (ServerStopping (projectPath s)),
                                       DisposableDispose s]\<rparr>"
  have a: "quiet env w ?w2"
    by (simp add: quiet_def subseq_splice1_indexOf)
  have b: "quiet env ?w2 (snd (stopServer_resume env s ?w2))"
    by (rule quiet_stopServer_resume)
  from quiet_trans[OF a b] False show ?thesis
    by (simp add: stopServer_disconnected)
qed

lemma quiet_fold:
  assumes "\<And>x w. quiet env w (f x w)"
  shows "quiet env w (fold f xs w)"
proof (induction xs arbitrary: w)
  case Nil
  show ?case by (simp add: quiet_refl)
next
  case (Cons x xs)
  have "quiet env w (f x w)" by (rule assms)
  moreover have "quiet env (f x w) (fold f xs (f x w))" by (rule Cons.IH)
  ultimately show ?case by (simp add: quiet_trans)
qed

lemma quiet_stopUnusedServers: "quiet env w (stopUnusedServers env w)"
proof -
  let ?un = "filter (\<lambda>s. s \<notin> set (map snd (editorToServer w))) (activeServers w)"
  let ?w1 = "w\<lparr>effects := effects w @ [LoggerDebug (StoppingUnused (length ?un))]\<rparr>"
  have a: "quiet env w ?w1" by (simp add: quiet_def)
  have b: "quiet env ?w1 (fold (\<lambda>s w'. snd (stopServer env s w')) ?un ?w1)"
    by (rule quiet_fold) (rule quiet_stopServer)
  show ?thesis
    using quiet_trans[OF a b] by (simp add: stopUnusedServers_def Let_def quiet_refl)
qed

lemma quiet_clear_counter:
  "quiet env w ((clearTimeout tid w)\<lparr>restartCounterPerProject := rc\<rparr>)"
  by (simp add: quiet_def clearTimeout_def)

lemma quiet_stopAllServers: "quiet env w (stopAllServers env w)"
proof -
  let ?f = "\<lambda>(p, restartCounter) w'.
              (clearTimeout (timerId restartCounter) w')
                \<lparr>restartCounterPerProject := AList.delete p (restartCounterPerProject w')\<rparr>"
  let ?w1 = "fold ?f (restartCounterPerProject w) w"
  let ?g = "\<lambda>k w'. if k < length (activeServers w')
                     then snd (stopServer env (activeServers w' ! k) w') else w'"
  have a: "quiet env w ?w1"
    by (rule quiet_fold) (auto simp: quiet_clear_counter split: prod.splits)
  have b: "quiet env ?w1 (fold ?g [0..<length (activeServers ?w1)] ?w1)"
    by (rule quiet_fold) (simp add: quiet_stopServer quiet_refl)
  from quiet_trans[OF a b] show ?thesis
    by (simp add: stopAllServers_def Let_def)
qed

lemma quiet_stopListening: "quiet env w (stopListening w)"
  by (simp add: stopListening_def quiet_def)

lemma quiet_startListening: "quiet env w (startListening env w)"
  by (simp add: startListening_def subscribe_def quiet_def Let_def)

lemma quiet_restartAllServers: "quiet env w (restartAllServers env w)"
  unfolding restartAllServers_def
  by (rule quiet_trans[OF quiet_stopListening quiet_stopAllServers])

lemma quiet_restartAllServers_resume: "quiet env w (restartAllServers_resume env w)"
  unfolding restartAllServers_resume_def
  by (rule quiet_trans[OF quiet_editorToServer quiet_startListening])

lemma quiet_terminate_aux:
  "quiet env w (snd acc) \<Longrightarrow>
   quiet env w (snd (fold (\<lambda>server (thrown, w').
             case thrown of
               Some e \<Rightarrow> (Some e, w')
             | None \<Rightarrow>
                 exitServer env server
                   (w'\<lparr>effects := effects w' @ [LoggerDebug (ServerTerminating (projectPath server))]\<rparr>))
       xs acc))"
proof (induction xs arbitrary: acc)
  case Nil
  then show ?case by simp
next
  case (Cons x xs)
  obtain thrown w' where acc: "acc = (thrown, w')" by (cases acc)
  show ?case
  proof (cases thrown)
    case None
    let ?w1 = "w'\<lparr>effects := effects w' @ [LoggerDebug (ServerTerminating (projectPath x))]\<rparr>"
    have "quiet env w' ?w1" by (simp add: quiet_def)
    then have "quiet env w' (snd (exitServer env x ?w1))"
      by (rule quiet_trans) (rule quiet_exitServer)
    with Cons.prems acc have "quiet env w (snd (exitServer env x ?w1))"
      by (auto intro: quiet_trans)
    from Cons.IH[OF this] acc None show ?thesis by simp
  next
    case (Some e)
    with Cons.prems acc Cons.IH[of "(Some e, w')"] show ?thesis by simp
  qed
qed

lemma quiet_terminate: "quiet env w (snd (terminate env w))"
  unfolding terminate_def by (rule quiet_terminate_aux) (simp add: quiet_refl)

lemma quiet_hasServerReachedRestartLimit: "quiet env w (snd (hasServerReachedRestartLimit s w))"
  by (auto simp: hasServerReachedRestartLimit_def setTimeout_def Let_def quiet_def split: option.splits)

lemma quiet_timer_fired: "quiet env w (timer_fired tid w)"
  by (auto simp: timer_fired_def quiet_def split: option.splits)

lemma quiet_elapse: "quiet env w (elapse ms w)"
proof -
  let ?w1 = "w\<lparr>clock := clock w + ms\<rparr>"
  have a: "quiet env w ?w1" by (simp add: quiet_def)
  have b: "quiet env ?w1 (fold (\<lambda>(i, due, p) w'. if due \<le> clock ?w1 then timer_fired i w' else w') (timers ?w1) ?w1)"
    by (rule quiet_fold) (auto simp: quiet_timer_fired quiet_refl split: prod.splits)
  from quiet_trans[OF a b] show ?thesis by (simp add: elapse_def Let_def)
qed

lemma quiet_projectPathsChanged: "quiet env w (projectPathsChanged env ps w)"
  unfolding projectPathsChanged_def Let_def
  by (rule quiet_fold) (rule quiet_stopServer)

lemma quiet_updateNormalizedProjectPaths: "quiet env w (updateNormalizedProjectPaths env w)"
  by (auto simp: updateNormalizedProjectPaths_def quiet_def)

lemma quiet_projectFilesChanged: "quiet env w (projectFilesChanged env evs w)"
proof (cases "length (activeServers w) = 0")
  case True
  then show ?thesis by (simp add: projectFilesChanged_def quiet_refl)
next
  case False
  have "quiet env w (fold (\<lambda>activeServer w'.
                   (let changes = watchedChanges env activeServer evs
                    in if length changes > 0
                       then w'\<lparr>effects := effects w' @ [DidChangeWatchedFiles activeServer changes]\<rparr>
                       else w'))
             (activeServers w) w)"
    by (rule quiet_fold) (simp add: quiet_def Let_def)
  with False show ?thesis by (simp add: projectFilesChanged_def)
qed

lemma quiet_handleTextEditor_resume: "quiet env w (handleTextEditor_resume editor s w)"
  by (auto simp: handleTextEditor_resume_def subscribe_def quiet_def split: option.splits)

lemma quiet_editorDestroyed: "quiet env w (editorDestroyed env editor w)"
  unfolding editorDestroyed_def
  by (rule quiet_trans[OF quiet_editorToServer quiet_stopUnusedServers])

lemma quiet_shutdown_settled: "quiet env w (snd (shutdown_settled env s r w))"
proof (cases "s \<in> set (awaitingShutdown w)")
  case False
  then show ?thesis by (simp add: shutdown_settled_def quiet_refl)
next
  case True
  let ?w1 = "w\<lparr>awaitingShutdown := remove1 s (awaitingShutdown w)\<rparr>"
  have a: "quiet env w ?w1" by (simp add: quiet_def)
  show ?thesis
  proof (cases r)
    case None
    with True have "snd (shutdown_settled env s r w) = snd (stopServer_resume env s ?w1)"
      by (simp add: shutdown_settled_def Let_def)
    with quiet_trans[OF a quiet_stopServer_resume] show ?thesis by simp
  next
    case (Some e)
    with True a show ?thesis by (simp add: shutdown_settled_def Let_def)
  qed
qed


section \<open>One server per project path\<close>

lemma determineProjectPath_mem:
  "determineProjectPath env e w = Some p \<Longrightarrow> p \<in> set (normalizedProjectPaths w)"
  by (auto simp: determineProjectPath_def find_Some_iff split: option.splits if_splits)

lemma getServer_cases:
  "snd (getServer env e b w) = w
   \<or> (\<exists>p. determineProjectPath env e w = Some p
          \<and> p \<notin> projectPath ` set (activeServers w)
          \<and> map_of (startingServerPromises w) p = None
          \<and> snd (getServer env e b w) = snd (startServer p w))"
  by (auto simp: getServer_def find_None_iff split: option.splits prod.splits)

lemma handleTextEditor_cases:
  "snd (handleTextEditor env e w) = w \<or> snd (handleTextEditor env e w) = snd (getServer env e True w)"
  by (auto simp: handleTextEditor_def split: prod.splits)

lemma handleGrammarChange_cases:
  "quiet env w (handleGrammarChange env e w)
   \<or> handleGrammarChange env e w = snd (getServer env e True w)"
proof (cases "startForEditor env e")
  case True
  with handleTextEditor_cases[where env=env and e=e and w=w] show ?thesis
    by (auto simp: handleGrammarChange_def quiet_refl)
next
  case False
  have "quiet env w (stopUnusedServers env (w\<lparr>editorToServer := AList.delete e (editorToServer w)\<rparr>))"
    by (rule quiet_trans[OF quiet_editorToServer quiet_stopUnusedServers])
  with False show ?thesis
    by (auto simp: handleGrammarChange_def quiet_refl split: option.splits)
qed

text \<open>Every event either starts nothing, or is one of the four that concern starts.\<close>

lemma step_cases:
  "quiet env w (step env ev w)
   \<or> (\<exists>e b. step env ev w = snd (getServer env e b w))
   \<or> (\<exists>p. ev = StartServer p)
   \<or> (\<exists>pr s. ev = StartFulfilled pr s)
   \<or> (\<exists>pr e. ev = StartRejected pr e)"
proof (cases ev)
  case (HandleTextEditor e)
  with handleTextEditor_cases[where env=env and e=e and w=w] show ?thesis by (auto simp: quiet_refl)
next
  case (GrammarChanged e)
  with handleGrammarChange_cases[where env=env and e=e and w=w] show ?thesis by auto
next
  case (ProjectPathsChanged ps)
  have "quiet env w (w\<lparr>atomProjectDirectories := ps\<rparr>)" by (simp add: quiet_def)
  from quiet_trans[OF this quiet_projectPathsChanged] ProjectPathsChanged show ?thesis by simp
next
  case (ConnectionClosed s)
  then show ?thesis by (simp add: quiet_def)
qed (auto simp: quiet_stopServer quiet_shutdown_settled quiet_stopUnusedServers quiet_stopAllServers
      quiet_restartAllServers quiet_restartAllServers_resume quiet_exitServer quiet_terminate
      quiet_hasServerReachedRestartLimit quiet_elapse quiet_updateNormalizedProjectPaths
      quiet_projectFilesChanged quiet_handleTextEditor_resume quiet_editorDestroyed
      quiet_startListening quiet_stopListening)


lemma start_inv_quiet:
  assumes "quiet env w w'" and "start_inv w"
  shows "start_inv w'"
proof -
  from assms(1) have sub: "subseq (activeServers w') (activeServers w)"
    and pend: "startingServerPromises w' = startingServerPromises w"
    and aw: "awaitingStart w' = awaitingStart w"
    and np: "nextPromise w' = nextPromise w"
    by (simp_all add: quiet_def)
  from sub have set_sub: "set (activeServers w') \<subseteq> set (activeServers w)" by (rule subseq_set)
  from assms(2) sub have "distinct (map projectPath (activeServers w'))"
    by (auto simp: start_inv_def intro: subseq_distinct_map)
  with assms(2) pend aw np set_sub show ?thesis
    unfolding start_inv_def by fastforce
qed

lemma update_absent: "map_of al k = None \<Longrightarrow> AList.update k v al = al @ [(k, v)]"
  by (induction al) (auto split: if_splits)

lemma distinct_fst_unique:
  "distinct (map fst al) \<Longrightarrow> (k, v) \<in> set al \<Longrightarrow> (k, v') \<in> set al \<Longrightarrow> v = v'"
  by (metis map_of_is_SomeI option.inject)

lemma start_inv_startServer:
  assumes inv: "start_inv w"
    and fresh: "p \<notin> projectPath ` set (activeServers w)"
    and nopend: "map_of (startingServerPromises w) p = None"
  shows "start_inv (snd (startServer p w))"
proof -
  let ?n = "nextPromise w"
  let ?w' = "snd (startServer p w)"
  have act: "activeServers ?w' = activeServers w"
    and pend: "startingServerPromises ?w' = startingServerPromises w @ [(p, ?n)]"
    and aw: "awaitingStart ?w' = awaitingStart w @ [(?n, p)]"
    and np: "nextPromise ?w' = ?n + 1"
    by (simp_all add: startServer_def Let_def update_absent[OF nopend])
  from inv have d1: "distinct (map projectPath (activeServers w))"
    and d2: "distinct (map fst (startingServerPromises w))"
    and d3: "distinct (map fst (awaitingStart w))"
    and own: "\<And>pr q. (pr, q) \<in> set (awaitingStart w) \<Longrightarrow>
                pr < ?n \<and> map_of (startingServerPromises w) q = Some pr
                \<and> q \<notin> projectPath ` set (activeServers w)"
    and owner: "\<And>q pr. (q, pr) \<in> set (startingServerPromises w) \<Longrightarrow> (pr, q) \<in> set (awaitingStart w)"
    by (auto simp: start_inv_def)
  from nopend have pkey: "p \<notin> fst ` set (startingServerPromises w)"
    by (simp add: map_of_eq_None_iff)
  have nkey: "?n \<notin> fst ` set (awaitingStart w)"
    using own by fastforce
  have a: "distinct (map fst (startingServerPromises ?w'))"
    using d2 pkey by (simp add: pend)
  have b: "distinct (map fst (awaitingStart ?w'))"
    using d3 nkey by (simp add: aw)
  have c: "pr < nextPromise ?w' \<and> map_of (startingServerPromises ?w') q = Some pr
           \<and> q \<notin> projectPath ` set (activeServers ?w')"
    if "(pr, q) \<in> set (awaitingStart ?w')" for pr q
  proof (cases "(pr, q) \<in> set (awaitingStart w)")
    case True
    from own[OF True] have o: "pr < ?n" "map_of (startingServerPromises w) q = Some pr"
      "q \<notin> projectPath ` set (activeServers w)" by simp_all
    from o(2) have "map_of (startingServerPromises w @ [(p, ?n)]) q = Some pr"
      by (simp add: map_add_Some_iff)
    with o show ?thesis by (simp add: np pend act)
  next
    case False
    with that have e: "pr = ?n" "q = p" by (simp_all add: aw)
    have "map_of (startingServerPromises w @ [(p, ?n)]) p = Some ?n"
      using nopend by (simp add: map_add_Some_iff)
    with e fresh show ?thesis by (simp add: np pend act)
  qed
  have d: "(pr, q) \<in> set (awaitingStart ?w')"
    if "(q, pr) \<in> set (startingServerPromises ?w')" for q pr
    using that owner by (auto simp: pend aw)
  from d1 a b c d show ?thesis
    unfolding start_inv_def act by blast
qed

lemma start_inv_resume:
  assumes inv: "start_inv w"
    and ok: "case settled of Inl e \<Rightarrow> True
             | Inr s \<Rightarrow> (case map_of (awaitingStart w) pr of None \<Rightarrow> True | Some p \<Rightarrow> projectPath s = p)"
  shows "start_inv (snd (startServer_resume pr settled w))"
proof (cases "map_of (awaitingStart w) pr")
  case None
  then show ?thesis using inv by (simp add: startServer_resume_def)
next
  case (Some p)
  let ?w' = "snd (startServer_resume pr settled w)"
  let ?new = "case settled of Inl e \<Rightarrow> [] | Inr s \<Rightarrow> [s]"
  have act: "activeServers ?w' = activeServers w @ ?new"
    and pend: "startingServerPromises ?w' = AList.delete p (startingServerPromises w)"
    and aw: "awaitingStart ?w' = AList.delete pr (awaitingStart w)"
    and np: "nextPromise ?w' = nextPromise w"
    using Some
    by (auto simp: startServer_resume_def startServer_fulfilled_def startServer_rejected_def Let_def
             split: sum.splits)
  from inv have d1: "distinct (map projectPath (activeServers w))"
    and d2: "distinct (map fst (startingServerPromises w))"
    and d3: "distinct (map fst (awaitingStart w))"
    and own: "\<And>pr q. (pr, q) \<in> set (awaitingStart w) \<Longrightarrow>
                pr < nextPromise w \<and> map_of (startingServerPromises w) q = Some pr
                \<and> q \<notin> projectPath ` set (activeServers w)"
    and owner: "\<And>q pr. (q, pr) \<in> set (startingServerPromises w) \<Longrightarrow> (pr, q) \<in> set (awaitingStart w)"
    by (auto simp: start_inv_def)
  from Some have mem: "(pr, p) \<in> set (awaitingStart w)" by (rule map_of_SomeD)
  from own[OF mem] have ownp: "map_of (startingServerPromises w) p = Some pr"
    and fresh: "p \<notin> projectPath ` set (activeServers w)" by simp_all
  have newpath: "projectPath ` set ?new \<subseteq> {p}"
    using ok Some by (auto split: sum.splits)
  have a: "distinct (map projectPath (activeServers ?w'))"
    using d1 fresh newpath unfolding act by (auto split: sum.splits)
  have b: "distinct (map fst (startingServerPromises ?w'))"
    using d2 by (simp add: pend AList.distinct_delete)
  have c: "distinct (map fst (awaitingStart ?w'))"
    using d3 by (simp add: aw AList.distinct_delete)
  have d: "pr' < nextPromise ?w' \<and> map_of (startingServerPromises ?w') q = Some pr'
           \<and> q \<notin> projectPath ` set (activeServers ?w')"
    if "(pr', q) \<in> set (awaitingStart ?w')" for pr' q
  proof -
    from that have m: "(pr', q) \<in> set (awaitingStart w)" and ne: "pr' \<noteq> pr"
      by (auto simp: aw AList.delete_eq)
    from own[OF m] have o: "pr' < nextPromise w" "map_of (startingServerPromises w) q = Some pr'"
      "q \<notin> projectPath ` set (activeServers w)" by simp_all
    from o(2) ownp ne have qp: "q \<noteq> p" by auto
    then have "map_of (AList.delete p (startingServerPromises w)) q = Some pr'"
      using o(2) by (simp add: AList.delete_conv)
    moreover have "q \<notin> projectPath ` set (activeServers ?w')"
      using o(3) qp newpath unfolding act by auto
    ultimately show ?thesis using o(1) by (simp add: np pend)
  qed
  have e: "(pr', q) \<in> set (awaitingStart ?w')"
    if "(q, pr') \<in> set (startingServerPromises ?w')" for q pr'
  proof -
    from that have m: "(q, pr') \<in> set (startingServerPromises w)" and qp: "q \<noteq> p"
      by (auto simp: pend AList.delete_eq)
    from owner[OF m] have f: "(pr', q) \<in> set (awaitingStart w)" .
    have "pr' \<noteq> pr"
    proof
      assume "pr' = pr"
      with f mem d3 have "q = p" by (auto dest: distinct_fst_unique)
      with qp show False by simp
    qed
    with f show ?thesis by (auto simp: aw AList.delete_eq)
  qed
  from a b c d e show ?thesis
    unfolding start_inv_def by blast
qed

lemma start_inv_getServer:
  assumes "start_inv w"
  shows "start_inv (snd (getServer env e b w))"
  using getServer_cases[where env=env and e=e and b=b and w=w] assms
  by (auto intro: start_inv_startServer)

lemma start_inv_step:
  assumes "start_inv w" and "guarded_starts ev w"
  shows "start_inv (step env ev w)"
proof -
  from step_cases[where env=env and w=w and ev=ev]
  consider (q) "quiet env w (step env ev w)"
    | (g) e b where "step env ev w = snd (getServer env e b w)"
    | (s) p where "ev = StartServer p"
    | (f) pr s where "ev = StartFulfilled pr s"
    | (r) pr e where "ev = StartRejected pr e"
    by blast
  then show ?thesis
  proof cases
    case q
    then show ?thesis using assms(1) by (rule start_inv_quiet)
  next
    case g
    then show ?thesis using assms(1) by (simp add: start_inv_getServer)
  next
    case s
    with assms show ?thesis by (simp add: start_inv_startServer)
  next
    case f
    with assms show ?thesis by (simp add: start_inv_resume)
  next
    case r
    with assms show ?thesis by (simp add: start_inv_resume)
  qed
qed

lemma start_inv_run:
  "every_event guarded_starts env evs w \<Longrightarrow> start_inv w \<Longrightarrow> start_inv (run env evs w)"
  unfolding run_def
  by (induction evs arbitrary: w) (auto intro: start_inv_step)

lemma start_inv_new: "start_inv (newServerManager env dirs)"
  by (simp add: start_inv_def newServerManager_def updateNormalizedProjectPaths_def)










lemmas eval_defs = run_def newServerManager_def updateNormalizedProjectPaths_def normalizePath_def
  sampleEnv_def endsWith_def startsWith_def startServer_def startServer_resume_def
  startServer_fulfilled_def startServer_rejected_def Let_def serverA_def serverB_def serverC_def
  getServer_def determineProjectPath_def start_calls_def suffix_to_prefix




text \<open>
  The condition on the start function is needed as well: two starts requested through
  \<open>getServer\<close>, for \<open>/a/\<close> and for \<open>/c/\<close>, the second resolving with an instance for
  \<open>/a/\<close>, leave two active servers with that project path.
\<close>

lemma start_function_other_path_duplicates:
  "activeServers (run sampleEnv
      [GetServer 0 True, GetServer 3 True, StartFulfilled 0 serverA, StartFulfilled 1 serverB]
      (newServerManager sampleEnv [''/a'', ''/c'']))
    = [serverA, serverB]
   \<and> projectPath serverA = ''/a/'' \<and> projectPath serverB = ''/a/''"
  by (simp add: eval_defs)

section \<open>Separator-terminated project paths\<close>

lemma separator_inv_quiet:
  assumes join: "\<forall>q. endsWith (path_join env q (path_sep env)) (path_sep env)"
    and q: "quiet env w w'" and inv: "separator_inv env w"
  shows "separator_inv env w'"
proof -
  from q have sub: "set (activeServers w') \<subseteq> set (activeServers w)"
    and aw: "awaitingStart w' = awaitingStart w"
    and roots: "normalizedProjectPaths w' = normalizedProjectPaths w
                \<or> (\<exists>ds. normalizedProjectPaths w' = map (normalizePath env) ds)"
    by (auto simp: quiet_def dest: subseq_set)
  have n: "endsWith (normalizePath env d) (path_sep env)" for d
    using join by (simp add: normalizePath_endsWith)
  from roots inv n have "\<forall>d \<in> set (normalizedProjectPaths w'). endsWith d (path_sep env)"
    by (auto simp: separator_inv_def)
  with inv sub aw show ?thesis
    unfolding separator_inv_def by auto
qed

lemma separator_inv_startServer:
  "separator_inv env w \<Longrightarrow> endsWith p (path_sep env) \<Longrightarrow> separator_inv env (snd (startServer p w))"
  by (auto simp: separator_inv_def startServer_def Let_def)

lemma separator_inv_resume:
  assumes inv: "separator_inv env w"
    and ok: "case settled of Inl e \<Rightarrow> True
             | Inr s \<Rightarrow> (case map_of (awaitingStart w) pr of None \<Rightarrow> True | Some p \<Rightarrow> projectPath s = p)"
  shows "separator_inv env (snd (startServer_resume pr settled w))"
proof (cases "map_of (awaitingStart w) pr")
  case None
  then show ?thesis using inv by (simp add: startServer_resume_def)
next
  case (Some p)
  then have "(pr, p) \<in> set (awaitingStart w)" by (rule map_of_SomeD)
  with inv have "endsWith p (path_sep env)" by (auto simp: separator_inv_def)
  with Some inv ok show ?thesis
    by (auto simp: separator_inv_def startServer_resume_def startServer_fulfilled_def
          startServer_rejected_def Let_def AList.delete_eq split: sum.splits)
qed

lemma separator_inv_getServer:
  assumes "separator_inv env w"
  shows "separator_inv env (snd (getServer env e b w))"
proof -
  from getServer_cases[where env=env and e=e and b=b and w=w]
  consider "snd (getServer env e b w) = w"
    | p where "determineProjectPath env e w = Some p" "snd (getServer env e b w) = snd (startServer p w)"
    by blast
  then show ?thesis
  proof cases
    case 1
    with assms show ?thesis by simp
  next
    case 2
    from 2(1) have "p \<in> set (normalizedProjectPaths w)" by (rule determineProjectPath_mem)
    with assms have "endsWith p (path_sep env)" by (simp add: separator_inv_def)
    with assms 2(2) show ?thesis by (simp add: separator_inv_startServer)
  qed
qed

lemma separator_inv_step:
  assumes join: "\<forall>q. endsWith (path_join env q (path_sep env)) (path_sep env)"
    and inv: "separator_inv env w" and ok: "separator_terminated_starts env ev w"
  shows "separator_inv env (step env ev w)"
proof -
  from step_cases[where env=env and w=w and ev=ev]
  consider (q) "quiet env w (step env ev w)"
    | (g) e b where "step env ev w = snd (getServer env e b w)"
    | (s) p where "ev = StartServer p"
    | (f) pr s where "ev = StartFulfilled pr s"
    | (r) pr e where "ev = StartRejected pr e"
    by blast
  then show ?thesis
  proof cases
    case q
    with join inv show ?thesis by (blast intro: separator_inv_quiet)
  next
    case g
    with inv show ?thesis by (simp add: separator_inv_getServer)
  next
    case s
    with inv ok show ?thesis by (simp add: separator_inv_startServer)
  next
    case f
    with inv ok show ?thesis by (simp add: separator_inv_resume)
  next
    case r
    with inv show ?thesis by (simp add: separator_inv_resume)
  qed
qed

lemma separator_inv_run:
  assumes join: "\<forall>q. endsWith (path_join env q (path_sep env)) (path_sep env)"
  shows "every_event (separator_terminated_starts env) env evs w \<Longrightarrow> separator_inv env w
         \<Longrightarrow> separator_inv env (run env evs w)"
  unfolding run_def
  by (induction evs arbitrary: w) (auto intro: separator_inv_step[OF join])

lemma separator_inv_new:
  assumes join: "\<forall>q. endsWith (path_join env q (path_sep env)) (path_sep env)"
  shows "separator_inv env (newServerManager env dirs)"
  using join
  by (simp add: separator_inv_def newServerManager_def updateNormalizedProjectPaths_def normalizePath_endsWith)

text \<open>
  The project roots alone: no step stores a root that is not a result of
  \<open>normalizePath\<close>, whatever is started and whatever the start function returns.
\<close>

lemma roots_startServer:
  "normalizedProjectPaths (snd (startServer p w)) = normalizedProjectPaths w"
  by (simp add: startServer_def Let_def)

lemma roots_resume:
  "normalizedProjectPaths (snd (startServer_resume pr settled w)) = normalizedProjectPaths w"
  by (simp add: startServer_resume_def startServer_fulfilled_def startServer_rejected_def Let_def
        split: option.splits sum.splits)

lemma roots_getServer:
  "normalizedProjectPaths (snd (getServer env e b w)) = normalizedProjectPaths w"
  using getServer_cases[where env=env and e=e and b=b and w=w]
  by (auto simp: roots_startServer)

lemma roots_step:
  assumes join: "\<forall>q. endsWith (path_join env q (path_sep env)) (path_sep env)"
    and inv: "\<forall>d \<in> set (normalizedProjectPaths w). endsWith d (path_sep env)"
  shows "\<forall>d \<in> set (normalizedProjectPaths (step env ev w)). endsWith d (path_sep env)"
proof -
  have n: "endsWith (normalizePath env d) (path_sep env)" for d
    using join by (simp add: normalizePath_endsWith)
  from step_cases[where env=env and w=w and ev=ev]
  consider (q) "quiet env w (step env ev w)"
    | (g) e b where "step env ev w = snd (getServer env e b w)"
    | (s) p where "ev = StartServer p"
    | (f) pr s where "ev = StartFulfilled pr s"
    | (r) pr e where "ev = StartRejected pr e"
    by blast
  then show ?thesis
  proof cases
    case q
    then have "normalizedProjectPaths (step env ev w) = normalizedProjectPaths w
               \<or> (\<exists>ds. normalizedProjectPaths (step env ev w) = map (normalizePath env) ds)"
      by (simp add: quiet_def)
    with inv n show ?thesis by auto
  next
    case g
    with inv show ?thesis by (simp add: roots_getServer)
  next
    case s
    with inv show ?thesis by (simp add: roots_startServer)
  next
    case f
    with inv show ?thesis by (simp add: roots_resume)
  next
    case r
    with inv show ?thesis by (simp add: roots_resume)
  qed
qed

lemma roots_run:
  assumes join: "\<forall>q. endsWith (path_join env q (path_sep env)) (path_sep env)"
  shows "\<forall>d \<in> set (normalizedProjectPaths w). endsWith d (path_sep env)
         \<Longrightarrow> \<forall>d \<in> set (normalizedProjectPaths (run env evs w)). endsWith d (path_sep env)"
  unfolding run_def
proof (induction evs arbitrary: w)
  case Nil
  then show ?case by simp
next
  case (Cons ev evs)
  from Cons.prems have "\<forall>d \<in> set (normalizedProjectPaths (step env ev w)). endsWith d (path_sep env)"
    by (rule roots_step[OF join])
  then have "\<forall>d \<in> set (normalizedProjectPaths (fold (step env) evs (step env ev w))).
               endsWith d (path_sep env)"
    by (rule Cons.IH)
  then show ?case by simp
qed

text \<open>
  C10 (as amended). Provided \<open>path.join\<close> of a path and the separator ends with the
  separator: \<open>normalizePath\<close> of any string ends with the separator and \<open>normalizePath\<close>
  is idempotent; in every run of the manager, whatever is started, every project root
  ends with the separator; and in the runs in which a path handed to \<open>startServer\<close> from
  outside ends with the separator and the start function resolves with an instance for
  the path it was called with, the project path of every active server ends with the
  separator.
\<close>

theorem normalizePath_separator_terminated:
  assumes join: "\<forall>q. endsWith (path_join env q (path_sep env)) (path_sep env)"
  shows "endsWith (normalizePath env p) (path_sep env)
    \<and> normalizePath env (normalizePath env p) = normalizePath env p
    \<and> (\<forall>d \<in> set (normalizedProjectPaths (run env evs (newServerManager env dirs))).
          endsWith d (path_sep env))
    \<and> (every_event (separator_terminated_starts env) env evs (newServerManager env dirs)
        \<longrightarrow> (\<forall>s \<in> set (activeServers (run env evs (newServerManager env dirs))).
              endsWith (projectPath s) (path_sep env)))"
proof -
  have a: "endsWith (normalizePath env p) (path_sep env)"
    using join by (simp add: normalizePath_endsWith)
  then have b: "normalizePath env (normalizePath env p) = normalizePath env p"
    by (rule normalizePath_fixed)
  have new: "separator_inv env (newServerManager env dirs)"
    by (rule separator_inv_new[OF join])
  then have "\<forall>d \<in> set (normalizedProjectPaths (newServerManager env dirs)). endsWith d (path_sep env)"
    by (simp add: separator_inv_def)
  then have c: "\<forall>d \<in> set (normalizedProjectPaths (run env evs (newServerManager env dirs))).
                  endsWith d (path_sep env)"
    by (rule roots_run[OF join])
  have d: "\<forall>s \<in> set (activeServers (run env evs (newServerManager env dirs))).
              endsWith (projectPath s) (path_sep env)"
    if starts: "every_event (separator_terminated_starts env) env evs (newServerManager env dirs)"
  proof -
    have "separator_inv env (run env evs (newServerManager env dirs))"
      using starts new by (rule separator_inv_run[OF join])
    then show ?thesis by (simp add: separator_inv_def)
  qed
  from a b c d show ?thesis by blast
qed

text \<open>
  An instance: with the roots \<open>/a\<close> and \<open>/c/\<close>, server A is started through \<open>getServer\<close>;
  and a run that starts a server for \<open>/a\<close> directly, without the separator, still has
  separator-terminated roots.
\<close>

theorem normalizePath_separator_terminated_witness:
  "(\<forall>q. endsWith (path_join sampleEnv q (path_sep sampleEnv)) (path_sep sampleEnv))
   \<and> every_event (separator_terminated_starts sampleEnv) sampleEnv
        [GetServer 0 True, StartFulfilled 0 serverA] (newServerManager sampleEnv [''/a'', ''/c/''])
   \<and> normalizePath sampleEnv ''/a'' = ''/a/''
   \<and> endsWith (normalizePath sampleEnv ''/a'') (path_sep sampleEnv)
   \<and> normalizePath sampleEnv (normalizePath sampleEnv ''/a'') = normalizePath sampleEnv ''/a''
   \<and> normalizedProjectPaths
        (run sampleEnv [GetServer 0 True, StartFulfilled 0 serverA] (newServerManager sampleEnv [''/a'', ''/c/'']))
      = [''/a/'', ''/c/'']
   \<and> endsWith ''/a/'' (path_sep sampleEnv) \<and> endsWith ''/c/'' (path_sep sampleEnv)
   \<and> activeServers
        (run sampleEnv [GetServer 0 True, StartFulfilled 0 serverA] (newServerManager sampleEnv [''/a'', ''/c/'']))
      = [serverA]
   \<and> endsWith (projectPath serverA) (path_sep sampleEnv)"
proof -
  let ?evs = "[GetServer 0 True, StartFulfilled 0 serverA]"
  let ?w0 = "newServerManager sampleEnv [''/a'', ''/c/'']"
  have join: "\<forall>q. endsWith (path_join sampleEnv q (path_sep sampleEnv)) (path_sep sampleEnv)"
    by (simp add: sampleEnv_def endsWith_self_append)
  have starts: "every_event (separator_terminated_starts sampleEnv) sampleEnv ?evs ?w0"
    by (simp add: eval_defs)
  note t = normalizePath_separator_terminated[OF join, where p = "''/a''" and evs = ?evs
      and dirs = "[''/a'', ''/c/'']"]
  have n: "normalizePath sampleEnv ''/a'' = ''/a/''"
    by (simp add: eval_defs)
  have roots: "normalizedProjectPaths (run sampleEnv ?evs ?w0) = [''/a/'', ''/c/'']"
    by (simp add: eval_defs)
  have act: "activeServers (run sampleEnv ?evs ?w0) = [serverA]"
    by (simp add: eval_defs)
  from t have "\<forall>d \<in> set (normalizedProjectPaths (run sampleEnv ?evs ?w0)). endsWith d (path_sep sampleEnv)"
    by blast
  then have r: "endsWith ''/a/'' (path_sep sampleEnv) \<and> endsWith ''/c/'' (path_sep sampleEnv)"
    unfolding roots by simp
  from t starts have "\<forall>s \<in> set (activeServers (run sampleEnv ?evs ?w0)).
      endsWith (projectPath s) (path_sep sampleEnv)"
    by blast
  then have "endsWith (projectPath serverA) (path_sep sampleEnv)"
    unfolding act by simp
  with t join starts n roots r act show ?thesis by blast
qed

text \<open>
  As stated, for every use of the manager, the last part of the claim fails:
  \<open>startServer\<close> called from outside with the path \<open>/a\<close>, which no \<open>normalizePath\<close> has
  seen, and the start function resolving with an instance for that path, leaves an
  active server whose project path does not end with the separator, while \<open>path.join\<close>
  is as the theorem requires and every root still ends with the separator.
\<close>

theorem direct_startServer_unnormalised_path:
  "(\<forall>q. endsWith (path_join sampleEnv q (path_sep sampleEnv)) (path_sep sampleEnv))
   \<and> activeServers
        (run sampleEnv [StartServer ''/a'', StartFulfilled 0 \<lparr>objectId = 4, projectPath = ''/a'', pid = 104\<rparr>]
           (newServerManager sampleEnv [''/a'']))
      = [\<lparr>objectId = 4, projectPath = ''/a'', pid = 104\<rparr>]
   \<and> normalizedProjectPaths
        (run sampleEnv [StartServer ''/a'', StartFulfilled 0 \<lparr>objectId = 4, projectPath = ''/a'', pid = 104\<rparr>]
           (newServerManager sampleEnv [''/a'']))
      = [''/a/'']
   \<and> \<not> endsWith (projectPath \<lparr>objectId = 4, projectPath = ''/a'', pid = 104\<rparr>) (path_sep sampleEnv)"
proof -
  have join: "\<forall>q. endsWith (path_join sampleEnv q (path_sep sampleEnv)) (path_sep sampleEnv)"
    by (simp add: sampleEnv_def endsWith_self_append)
  have rest: "activeServers
        (run sampleEnv [StartServer ''/a'', StartFulfilled 0 \<lparr>objectId = 4, projectPath = ''/a'', pid = 104\<rparr>]
           (newServerManager sampleEnv [''/a'']))
      = [\<lparr>objectId = 4, projectPath = ''/a'', pid = 104\<rparr>]
   \<and> normalizedProjectPaths
        (run sampleEnv [StartServer ''/a'', StartFulfilled 0 \<lparr>objectId = 4, projectPath = ''/a'', pid = 104\<rparr>]
           (newServerManager sampleEnv [''/a'']))
      = [''/a/'']
   \<and> \<not> endsWith (projectPath \<lparr>objectId = 4, projectPath = ''/a'', pid = 104\<rparr>) (path_sep sampleEnv)"
    by (simp add: eval_defs)
  from join rest show ?thesis by blast
qed

text \<open>
  The condition on the start function is needed as well: a start requested through
  \<open>getServer\<close> for \<open>/a/\<close>, resolving with an instance whose project path is \<open>/a\<close>, leaves
  that instance active.
\<close>

lemma start_function_unnormalised_path:
  "activeServers
        (run sampleEnv [GetServer 0 True, StartFulfilled 0 \<lparr>objectId = 4, projectPath = ''/a'', pid = 104\<rparr>]
           (newServerManager sampleEnv [''/a'']))
      = [\<lparr>objectId = 4, projectPath = ''/a'', pid = 104\<rparr>]
   \<and> \<not> endsWith ''/a'' (path_sep sampleEnv)"
  by (simp add: eval_defs)



section \<open>Resolving an editor to a server\<close>

lemma startsWith_prefix: "startsWith fp = (\<lambda>d. prefix d fp)"
  by (rule ext) (simp add: startsWith_def)

lemma determineProjectPath_find:
  assumes "[] \<notin> set (normalizedProjectPaths w)" and "getPath env e = Some fp"
  shows "determineProjectPath env e w = find (\<lambda>d. prefix d fp) (normalizedProjectPaths w)"
proof (cases "find (\<lambda>d. prefix d fp) (normalizedProjectPaths w)")
  case None
  with assms(2) show ?thesis by (simp add: determineProjectPath_def startsWith_prefix)
next
  case (Some d)
  then have "d \<in> set (normalizedProjectPaths w)" by (auto simp: find_Some_iff)
  with assms(1) have "d \<noteq> []" by auto
  with Some assms(2) show ?thesis by (simp add: determineProjectPath_def startsWith_prefix)
qed

lemma getServer_null:
  "determineProjectPath env e w = None \<Longrightarrow> getServer env e b w = (Resolved None, w)"
  by (simp add: getServer_def)

lemma getServer_active:
  "determineProjectPath env e w = Some d \<Longrightarrow> find (\<lambda>s. d = projectPath s) (activeServers w) = Some s
   \<Longrightarrow> getServer env e b w = (Resolved (Some s), w)"
  by (simp add: getServer_def)

text \<open>
  C2 (as amended). With no empty string among the project roots: \<open>getServer\<close> returns
  \<open>null\<close> (and changes nothing) when the editor has no file path, or when no root is a
  prefix of its file path; otherwise the editor is resolved to the first root in
  registration order that is a prefix of its file path; and when an active server has
  that root as its project path, the first such server is returned.
\<close>

theorem getServer_first_matching_root:
  assumes "[] \<notin> set (normalizedProjectPaths w)"
  shows "(getPath env e = None \<longrightarrow> getServer env e b w = (Resolved None, w))
    \<and> (\<forall>fp. getPath env e = Some fp \<and> (\<forall>d \<in> set (normalizedProjectPaths w). \<not> prefix d fp)
           \<longrightarrow> getServer env e b w = (Resolved None, w))
    \<and> (\<forall>fp d. getPath env e = Some fp \<longrightarrow>
           (determineProjectPath env e w = Some d \<longleftrightarrow>
              (\<exists>i < length (normalizedProjectPaths w).
                 normalizedProjectPaths w ! i = d \<and> prefix d fp
                 \<and> (\<forall>j < i. \<not> prefix (normalizedProjectPaths w ! j) fp))))
    \<and> (\<forall>d s. determineProjectPath env e w = Some d
            \<and> find (\<lambda>s. d = projectPath s) (activeServers w) = Some s
           \<longrightarrow> getServer env e b w = (Resolved (Some s), w))"
proof -
  have a: "getPath env e = None \<longrightarrow> getServer env e b w = (Resolved None, w)"
    by (simp add: getServer_def determineProjectPath_def)
  have b: "getServer env e b w = (Resolved None, w)"
    if "getPath env e = Some fp" "\<forall>d \<in> set (normalizedProjectPaths w). \<not> prefix d fp" for fp
  proof -
    from that(2) have "find (\<lambda>d. prefix d fp) (normalizedProjectPaths w) = None"
      by (simp add: find_None_iff)
    with determineProjectPath_find[OF assms that(1)] show ?thesis
      by (simp add: getServer_null)
  qed
  have c: "determineProjectPath env e w = Some d \<longleftrightarrow>
              (\<exists>i < length (normalizedProjectPaths w).
                 normalizedProjectPaths w ! i = d \<and> prefix d fp
                 \<and> (\<forall>j < i. \<not> prefix (normalizedProjectPaths w ! j) fp))"
    if "getPath env e = Some fp" for fp d
    unfolding determineProjectPath_find[OF assms that] find_Some_iff by auto
  from a b c getServer_active show ?thesis by blast
qed

theorem getServer_first_matching_root_witness:
  "[] \<notin> set (normalizedProjectPaths
        (run sampleEnv [GetServer 0 True, StartFulfilled 0 serverA] (newServerManager sampleEnv [''/a'', ''/a/b''])))
   \<and> getServer sampleEnv 2 True
        (run sampleEnv [GetServer 0 True, StartFulfilled 0 serverA] (newServerManager sampleEnv [''/a'', ''/a/b'']))
      = (Resolved None,
         run sampleEnv [GetServer 0 True, StartFulfilled 0 serverA] (newServerManager sampleEnv [''/a'', ''/a/b'']))
   \<and> determineProjectPath sampleEnv 0
        (run sampleEnv [GetServer 0 True, StartFulfilled 0 serverA] (newServerManager sampleEnv [''/a'', ''/a/b'']))
      = Some ''/a/''
   \<and> getServer sampleEnv 0 False
        (run sampleEnv [GetServer 0 True, StartFulfilled 0 serverA] (newServerManager sampleEnv [''/a'', ''/a/b'']))
      = (Resolved (Some serverA),
         run sampleEnv [GetServer 0 True, StartFulfilled 0 serverA] (newServerManager sampleEnv [''/a'', ''/a/b'']))
   \<and> [] \<notin> set (normalizedProjectPaths (newServerManager sampleEnv [''/c'']))
   \<and> getServer sampleEnv 1 True (newServerManager sampleEnv [''/c''])
      = (Resolved None, newServerManager sampleEnv [''/c''])"
proof -
  let ?w = "run sampleEnv [GetServer 0 True, StartFulfilled 0 serverA] (newServerManager sampleEnv [''/a'', ''/a/b''])"
  let ?v = "newServerManager sampleEnv [''/c'']"
  have rw: "normalizedProjectPaths ?w = [''/a/'', ''/a/b/'']" and aw: "activeServers ?w = [serverA]"
    by (simp_all add: eval_defs)
  have rv: "normalizedProjectPaths ?v = [''/c/'']"
    by (simp add: eval_defs)
  have hw: "[] \<notin> set (normalizedProjectPaths ?w)" by (simp add: rw)
  have hv: "[] \<notin> set (normalizedProjectPaths ?v)" by (simp add: rv)
  note tw2 = getServer_first_matching_root[OF hw, where env = sampleEnv and e = 2 and b = True]
  note tw0 = getServer_first_matching_root[OF hw, where env = sampleEnv and e = 0 and b = False]
  note tv = getServer_first_matching_root[OF hv, where env = sampleEnv and e = 1 and b = True]
  have p2: "getPath sampleEnv 2 = None" and p0: "getPath sampleEnv 0 = Some ''/a/b/c.txt''"
    and p1: "getPath sampleEnv 1 = Some ''/a/d.txt''"
    by (simp_all add: sampleEnv_def)
  from tw2 p2 have a: "getServer sampleEnv 2 True ?w = (Resolved None, ?w)" by blast
  have "\<exists>i < length (normalizedProjectPaths ?w).
          normalizedProjectPaths ?w ! i = ''/a/'' \<and> prefix ''/a/'' ''/a/b/c.txt''
          \<and> (\<forall>j < i. \<not> prefix (normalizedProjectPaths ?w ! j) ''/a/b/c.txt'')"
    by (rule exI[where x = 0]) (simp add: rw)
  with tw0 p0 have b: "determineProjectPath sampleEnv 0 ?w = Some ''/a/''" by blast
  have "find (\<lambda>s. ''/a/'' = projectPath s) (activeServers ?w) = Some serverA"
    unfolding aw by (simp add: serverA_def)
  with tw0 b have c: "getServer sampleEnv 0 False ?w = (Resolved (Some serverA), ?w)" by blast
  have "\<forall>d \<in> set (normalizedProjectPaths ?v). \<not> prefix d ''/a/d.txt''" by (simp add: rv)
  with tv p1 have d: "getServer sampleEnv 1 True ?v = (Resolved None, ?v)" by blast
  from hw a b c hv d show ?thesis by blast
qed

text \<open>
  As stated, with the root chosen by longest prefix, the claim fails for nested roots:
  with the roots \<open>/a/\<close> and \<open>/a/b/\<close> registered in this order, the editor of
  \<open>/a/b/c.txt\<close> is resolved to \<open>/a/\<close>, while the longest matching root is \<open>/a/b/\<close>.
\<close>

theorem first_match_is_not_longest_match:
  "normalizedProjectPaths (newServerManager sampleEnv [''/a'', ''/a/b'']) = [''/a/'', ''/a/b/'']
   \<and> getPath sampleEnv 0 = Some ''/a/b/c.txt''
   \<and> determineProjectPath sampleEnv 0 (newServerManager sampleEnv [''/a'', ''/a/b'']) = Some ''/a/''
   \<and> longest_matching_root [''/a/'', ''/a/b/''] ''/a/b/c.txt'' = Some ''/a/b/''
   \<and> determineProjectPath sampleEnv 0 (newServerManager sampleEnv [''/a'', ''/a/b''])
       \<noteq> longest_matching_root (normalizedProjectPaths (newServerManager sampleEnv [''/a'', ''/a/b'']))
           ''/a/b/c.txt''"
  by (simp add: eval_defs longest_matching_root_def)



section \<open>The restart limit\<close>

lemma find_Some_mem: "find P xs = Some x \<Longrightarrow> x \<in> set xs \<and> P x"
  by (induction xs) (auto split: if_splits)

lemma timer_fired_other:
  assumes c: "counting p k tid due w" and ne: "i \<noteq> tid"
  shows "counting p k tid due (timer_fired i w)"
proof (cases "find (\<lambda>(i', due', p'). i' = i) (timers w)")
  case None
  with c show ?thesis by (simp add: timer_fired_def)
next
  case (Some t)
  obtain j d q where t: "t = (j, d, q)" by (cases t)
  from Some t have mem: "(j, d, q) \<in> set (timers w)" and j: "j = i"
    by (auto dest: find_Some_mem)
  from c mem j ne have qp: "q \<noteq> p"
    by (auto simp: counting_def)
  from c have cnt: "map_of (restartCounterPerProject w) p = Some \<lparr>restarts = k, timerId = tid\<rparr>"
    and tm: "(tid, due, p) \<in> set (timers w)"
    and uniq: "\<forall>(i, d, q) \<in> set (timers w). i = tid \<or> q = p \<longrightarrow> (i, d, q) = (tid, due, p)"
    by (simp_all add: counting_def)
  have w': "timer_fired i w =
      w\<lparr>timers := filter (\<lambda>(j, due', p'). j \<noteq> i) (timers w),
        restartCounterPerProject := AList.delete q (restartCounterPerProject w)\<rparr>"
    using Some t by (simp add: timer_fired_def)
  show ?thesis
    unfolding w' counting_def
    using cnt tm uniq qp ne by (auto simp: AList.delete_conv)
qed

lemma timer_fired_own:
  assumes c: "counting p k tid due w"
  shows "map_of (restartCounterPerProject (timer_fired tid w)) p = None"
proof -
  from c have tm: "(tid, due, p) \<in> set (timers w)"
    and uniq: "\<forall>(i, d, q) \<in> set (timers w). i = tid \<or> q = p \<longrightarrow> (i, d, q) = (tid, due, p)"
    by (simp_all add: counting_def)
  from tm obtain t where f: "find (\<lambda>(i', due', p'). i' = tid) (timers w) = Some t"
    by (cases "find (\<lambda>(i', due', p'). i' = tid) (timers w)") (auto simp: find_None_iff)
  then have "t \<in> set (timers w)" and "fst t = tid"
    by (auto dest: find_Some_mem)
  with uniq have "t = (tid, due, p)" by auto
  with f show ?thesis by (simp add: timer_fired_def AList.delete_conv)
qed

lemma timer_fired_none:
  "map_of (restartCounterPerProject w) p = None \<Longrightarrow>
   map_of (restartCounterPerProject (timer_fired i w)) p = None"
  by (auto simp: timer_fired_def AList.delete_conv split: option.splits)

lemma fold_fire_none:
  "map_of (restartCounterPerProject w) p = None \<Longrightarrow>
   map_of (restartCounterPerProject
     (fold (\<lambda>(i, due, q) w'. if due \<le> c then timer_fired i w' else w') ts w)) p = None"
  by (induction ts arbitrary: w) (auto simp: timer_fired_none)

lemma fold_fire_clock:
  "clock (fold (\<lambda>(i, due, q) w'. if due \<le> c then timer_fired i w' else w') ts w) = clock w"
  by (induction ts arbitrary: w) (auto simp: timer_fired_def split: option.splits)

lemma fold_fire_keep:
  assumes "counting p k tid due w" and "c < due"
    and "\<forall>(i, d, q) \<in> set ts. i = tid \<longrightarrow> d = due"
  shows "counting p k tid due
     (fold (\<lambda>(i, due, q) w'. if due \<le> c then timer_fired i w' else w') ts w)"
  using assms
proof (induction ts arbitrary: w)
  case Nil
  then show ?case by simp
next
  case (Cons t ts)
  obtain i d q where t: "t = (i, d, q)" by (cases t)
  show ?case
  proof (cases "d \<le> c")
    case True
    with Cons.prems t have "i \<noteq> tid" by auto
    with Cons.prems(1) have "counting p k tid due (timer_fired i w)" by (rule timer_fired_other)
    with Cons t True show ?thesis by simp
  next
    case False
    with Cons t show ?thesis by simp
  qed
qed

lemma fold_fire_expire:
  assumes "counting p k tid due w" and "due \<le> c"
    and "(tid, due, p) \<in> set ts"
    and "\<forall>(i, d, q) \<in> set ts. i = tid \<longrightarrow> (i, d, q) = (tid, due, p)"
  shows "map_of (restartCounterPerProject
     (fold (\<lambda>(i, due, q) w'. if due \<le> c then timer_fired i w' else w') ts w)) p = None"
  using assms
proof (induction ts arbitrary: w)
  case Nil
  then show ?case by simp
next
  case (Cons t ts)
  obtain i d q where t: "t = (i, d, q)" by (cases t)
  show ?case
  proof (cases "i = tid")
    case True
    with Cons.prems(4) t have "t = (tid, due, p)" by auto
    moreover have "map_of (restartCounterPerProject (timer_fired tid w)) p = None"
      using Cons.prems(1) by (rule timer_fired_own)
    ultimately show ?thesis using Cons.prems(2) by (simp add: fold_fire_none)
  next
    case False
    with Cons.prems(3) t have mem: "(tid, due, p) \<in> set ts" by auto
    from Cons.prems(4) have rest: "\<forall>(i, d, q) \<in> set ts. i = tid \<longrightarrow> (i, d, q) = (tid, due, p)" by simp
    have "counting p k tid due (if d \<le> c then timer_fired i w else w)"
      using Cons.prems(1) False by (simp add: timer_fired_other)
    from Cons.IH[OF this Cons.prems(2) mem rest] t show ?thesis by simp
  qed
qed

lemma counting_clock: "counting p k tid due (w\<lparr>clock := c\<rparr>) = counting p k tid due w"
  by (simp add: counting_def)

lemma elapse_keep:
  assumes c: "counting p k tid due w" and lt: "clock w + ms < due"
  shows "counting p k tid due (elapse ms w) \<and> clock (elapse ms w) = clock w + ms"
proof -
  let ?w1 = "w\<lparr>clock := clock w + ms\<rparr>"
  have c1: "counting p k tid due ?w1" using c by (simp add: counting_clock)
  have ids: "\<forall>(i, d, q) \<in> set (timers ?w1). i = tid \<longrightarrow> d = due"
    using c by (auto simp: counting_def)
  from fold_fire_keep[OF c1 lt ids] show ?thesis
    by (simp add: elapse_def Let_def fold_fire_clock)
qed

lemma elapse_expire:
  assumes c: "counting p k tid due w" and ge: "due \<le> clock w + ms"
  shows "map_of (restartCounterPerProject (elapse ms w)) p = None"
proof -
  let ?w1 = "w\<lparr>clock := clock w + ms\<rparr>"
  have c1: "counting p k tid due ?w1" using c by (simp add: counting_clock)
  have mem: "(tid, due, p) \<in> set (timers ?w1)" using c by (simp add: counting_def)
  have ids: "\<forall>(i, d, q) \<in> set (timers ?w1). i = tid \<longrightarrow> (i, d, q) = (tid, due, p)"
    using c by (auto simp: counting_def)
  from fold_fire_expire[OF c1 ge mem ids] show ?thesis
    by (simp add: elapse_def Let_def)
qed


lemma elapse_fresh:
  assumes "map_of (restartCounterPerProject w) p = None"
    and "\<forall>(i, d, q) \<in> set (timers w). i < nextTimer w \<and> q \<noteq> p"
  shows "map_of (restartCounterPerProject (elapse ms w)) p = None
    \<and> (\<forall>(i, d, q) \<in> set (timers (elapse ms w)). i < nextTimer (elapse ms w) \<and> q \<noteq> p)"
proof -
  let ?f = "\<lambda>(i, due, q) w'. if due \<le> clock w + ms then timer_fired i w' else w'"
  have one: "set (timers (?f t v)) \<subseteq> set (timers v) \<and> nextTimer (?f t v) = nextTimer v" for t v
    by (auto simp: timer_fired_def split: option.splits prod.splits)
  have sub: "set (timers (fold ?f ts v)) \<subseteq> set (timers v) \<and> nextTimer (fold ?f ts v) = nextTimer v" for ts v
  proof (induction ts arbitrary: v)
    case Nil
    show ?case by simp
  next
    case (Cons t ts)
    from Cons.IH[of "?f t v"] one[of t v] show ?case by auto
  qed
  have "map_of (restartCounterPerProject (elapse ms w)) p = None"
    using assms(1) by (simp add: elapse_def Let_def fold_fire_none)
  moreover have "set (timers (elapse ms w)) \<subseteq> set (timers w)" "nextTimer (elapse ms w) = nextTimer w"
    using sub[of "timers w" "w\<lparr>clock := clock w + ms\<rparr>"] by (simp_all add: elapse_def Let_def)
  ultimately show ?thesis using assms(2) by auto
qed

lemma first_call:
  assumes "map_of (restartCounterPerProject w) (projectPath server) = None"
    and "\<forall>(i, d, q) \<in> set (timers w). i < nextTimer w \<and> q \<noteq> projectPath server"
  shows "fst (hasServerReachedRestartLimit server w) = False
    \<and> counting (projectPath server) 1 (nextTimer w) (clock w + 180000)
         (snd (hasServerReachedRestartLimit server w))
    \<and> clock (snd (hasServerReachedRestartLimit server w)) = clock w"
  using assms
  by (auto simp: hasServerReachedRestartLimit_def setTimeout_def Let_def counting_def
        AList.update_conv')

lemma next_call:
  assumes "counting (projectPath server) k tid due w"
  shows "fst (hasServerReachedRestartLimit server w) = (5 < Suc k)
    \<and> counting (projectPath server) (Suc k) tid due (snd (hasServerReachedRestartLimit server w))
    \<and> clock (snd (hasServerReachedRestartLimit server w)) = clock w"
  using assms
  by (auto simp: hasServerReachedRestartLimit_def Let_def counting_def AList.update_conv')

lemma attempts_counting:
  assumes "counting (projectPath server) k tid due w" and "clock w + sum_list ds < due"
  shows "fst (attempts server ds w) = map (\<lambda>j. 5 < j) [Suc k..<Suc k + length ds]
    \<and> counting (projectPath server) (k + length ds) tid due (snd (attempts server ds w))
    \<and> clock (snd (attempts server ds w)) = clock w + sum_list ds"
  using assms
proof (induction ds arbitrary: w k)
  case Nil
  then show ?case by simp
next
  case (Cons d ds)
  let ?w1 = "elapse d w"
  let ?w2 = "snd (hasServerReachedRestartLimit server ?w1)"
  from Cons.prems have "clock w + d < due" by simp
  from elapse_keep[OF Cons.prems(1) this]
  have c1: "counting (projectPath server) k tid due ?w1" and k1: "clock ?w1 = clock w + d" by simp_all
  from next_call[OF c1]
  have r: "fst (hasServerReachedRestartLimit server ?w1) = (5 < Suc k)"
    and c2: "counting (projectPath server) (Suc k) tid due ?w2"
    and k2: "clock ?w2 = clock ?w1" by simp_all
  from Cons.prems k1 k2 have "clock ?w2 + sum_list ds < due" by simp
  from Cons.IH[OF c2 this]
  have ih: "fst (attempts server ds ?w2) = map (\<lambda>j. 5 < j) [Suc (Suc k)..<Suc (Suc k) + length ds]"
    "counting (projectPath server) (Suc k + length ds) tid due (snd (attempts server ds ?w2))"
    "clock (snd (attempts server ds ?w2)) = clock ?w2 + sum_list ds" by simp_all
  have "[Suc k..<Suc k + length (d # ds)] = Suc k # [Suc (Suc k)..<Suc (Suc k) + length ds]"
    by (simp add: upt_rec)
  with r ih k1 k2 show ?case
    by (simp add: case_prod_unfold Let_def)
qed

lemma call_after_expiry:
  assumes "map_of (restartCounterPerProject w) (projectPath server) = None"
  shows "fst (hasServerReachedRestartLimit server w) = False
    \<and> (\<exists>tid. map_of (restartCounterPerProject (snd (hasServerReachedRestartLimit server w)))
                (projectPath server) = Some \<lparr>restarts = 1, timerId = tid\<rparr>)"
  using assms
  by (auto simp: hasServerReachedRestartLimit_def setTimeout_def Let_def AList.update_conv')

text \<open>
  C3. For a project path without a counter (and no pending timer for it), consecutive
  checks of the restart limit, the first made at any time and the later ones all within
  180000 ms (3 minutes) of the first: every check increments the counter (created at
  zero by the first, together with a timer due 3 minutes after that first check), the
  k-th check returns whether \<open>k > 5\<close> (false for the 1st to the 5th, true from the 6th
  on), and the counter equals the number of checks. Once 3 minutes have passed since the
  first check the counter is deleted, and the next check returns false and counts as
  attempt 1. The counter is a natural number here; the source's floating-point count
  agrees with it below \<open>2^53\<close> checks.
\<close>

theorem restart_limit_within_window:
  assumes fresh: "map_of (restartCounterPerProject w) (projectPath server) = None"
    and timers_ok: "\<forall>(i, d, q) \<in> set (timers w). i < nextTimer w \<and> q \<noteq> projectPath server"
    and window: "sum_list delays < 180000"
  shows "fst (attempts server (d0 # delays) w) = map (\<lambda>k. 5 < k) [1..<length delays + 2]
    \<and> (\<exists>tid. map_of (restartCounterPerProject (snd (attempts server (d0 # delays) w))) (projectPath server)
                = Some \<lparr>restarts = length delays + 1, timerId = tid\<rparr>
              \<and> (tid, clock w + d0 + 180000, projectPath server)
                  \<in> set (timers (snd (attempts server (d0 # delays) w))))
    \<and> (\<forall>ms. 180000 \<le> sum_list delays + ms \<longrightarrow>
          map_of (restartCounterPerProject (elapse ms (snd (attempts server (d0 # delays) w))))
            (projectPath server) = None
          \<and> fst (hasServerReachedRestartLimit server (elapse ms (snd (attempts server (d0 # delays) w))))
            = False
          \<and> (\<exists>tid. map_of (restartCounterPerProject
                 (snd (hasServerReachedRestartLimit server
                    (elapse ms (snd (attempts server (d0 # delays) w))))))
                (projectPath server) = Some \<lparr>restarts = 1, timerId = tid\<rparr>))"
proof -
  let ?p = "projectPath server"
  let ?w0 = "elapse d0 w"
  let ?w1 = "snd (hasServerReachedRestartLimit server ?w0)"
  let ?due = "clock w + d0 + 180000"
  let ?end = "snd (attempts server (d0 # delays) w)"
  from elapse_fresh[OF fresh timers_ok]
  have f0: "map_of (restartCounterPerProject ?w0) ?p = None"
    and t0: "\<forall>(i, d, q) \<in> set (timers ?w0). i < nextTimer ?w0 \<and> q \<noteq> ?p" by simp_all
  have k0: "clock ?w0 = clock w + d0"
    by (simp add: elapse_def Let_def fold_fire_clock)
  from first_call[OF f0 t0]
  have r1: "fst (hasServerReachedRestartLimit server ?w0) = False"
    and c1: "counting ?p 1 (nextTimer ?w0) ?due ?w1"
    and k1: "clock ?w1 = clock w + d0" by (simp_all add: k0)
  from window k1 have "clock ?w1 + sum_list delays < ?due" by simp
  from attempts_counting[OF c1 this]
  have rs: "fst (attempts server delays ?w1) = map (\<lambda>j. 5 < j) [Suc 1..<Suc 1 + length delays]"
    and cn: "counting ?p (1 + length delays) (nextTimer ?w0) ?due (snd (attempts server delays ?w1))"
    and kn: "clock (snd (attempts server delays ?w1)) = clock ?w1 + sum_list delays" by simp_all
  have e: "?end = snd (attempts server delays ?w1)"
    by (simp add: case_prod_unfold Let_def)
  have "[1..<length delays + 2] = 1 # [Suc 1..<Suc 1 + length delays]"
    by (simp add: upt_rec)
  with r1 rs have a: "fst (attempts server (d0 # delays) w) = map (\<lambda>k. 5 < k) [1..<length delays + 2]"
    by (simp add: case_prod_unfold Let_def)
  from cn have b: "\<exists>tid. map_of (restartCounterPerProject ?end) ?p
                = Some \<lparr>restarts = length delays + 1, timerId = tid\<rparr>
              \<and> (tid, ?due, ?p) \<in> set (timers ?end)"
    unfolding e counting_def by auto
  have c: "map_of (restartCounterPerProject (elapse ms ?end)) ?p = None
          \<and> fst (hasServerReachedRestartLimit server (elapse ms ?end)) = False
          \<and> (\<exists>tid. map_of (restartCounterPerProject
                 (snd (hasServerReachedRestartLimit server (elapse ms ?end)))) ?p
                = Some \<lparr>restarts = 1, timerId = tid\<rparr>)"
    if "180000 \<le> sum_list delays + ms" for ms
  proof -
    from that kn k1 have "?due \<le> clock (snd (attempts server delays ?w1)) + ms" by simp
    from elapse_expire[OF cn this]
    have n: "map_of (restartCounterPerProject (elapse ms ?end)) ?p = None" by (simp only: e)
    from n call_after_expiry[OF n] show ?thesis by blast
  qed
  from a b c show ?thesis by blast
qed


theorem restart_limit_within_window_witness:
  "map_of (restartCounterPerProject (snd (hasServerReachedRestartLimit serverC (newServerManager sampleEnv []))))
      (projectPath serverA) = None
   \<and> timers (snd (hasServerReachedRestartLimit serverC (newServerManager sampleEnv []))) = [(0, 180000, ''/c/'')]
   \<and> nextTimer (snd (hasServerReachedRestartLimit serverC (newServerManager sampleEnv []))) = 1
   \<and> sum_list [1000, 1000, 1000, 1000, 1000, 1000] < (180000 :: nat)
   \<and> fst (attempts serverA [500, 1000, 1000, 1000, 1000, 1000, 1000]
         (snd (hasServerReachedRestartLimit serverC (newServerManager sampleEnv []))))
       = [False, False, False, False, False, True, True]
   \<and> map_of (restartCounterPerProject
         (elapse 174000 (snd (attempts serverA [500, 1000, 1000, 1000, 1000, 1000, 1000]
            (snd (hasServerReachedRestartLimit serverC (newServerManager sampleEnv [])))))))
         (projectPath serverA) = None
   \<and> fst (hasServerReachedRestartLimit serverA
         (elapse 174000 (snd (attempts serverA [500, 1000, 1000, 1000, 1000, 1000, 1000]
            (snd (hasServerReachedRestartLimit serverC (newServerManager sampleEnv [])))))))
       = False"
proof -
  let ?w = "snd (hasServerReachedRestartLimit serverC (newServerManager sampleEnv []))"
  let ?ds = "[1000, 1000, 1000, 1000, 1000, 1000] :: nat list"
  have fresh: "map_of (restartCounterPerProject ?w) (projectPath serverA) = None"
    by (simp add: eval_defs hasServerReachedRestartLimit_def setTimeout_def)
  have tm: "timers ?w = [(0, 180000, ''/c/'')]" and nt: "nextTimer ?w = 1"
    by (simp_all add: eval_defs hasServerReachedRestartLimit_def setTimeout_def)
  have timers_ok: "\<forall>(i, d, q) \<in> set (timers ?w). i < nextTimer ?w \<and> q \<noteq> projectPath serverA"
    unfolding tm nt by (simp add: serverA_def)
  have window: "sum_list ?ds < 180000" by simp
  note t = restart_limit_within_window[OF fresh timers_ok window, where ?d0.0 = 500]
  have up: "map (\<lambda>k. 5 < k) [1..<length ?ds + 2] = [False, False, False, False, False, True, True]"
    by (simp add: upt_rec)
  have ge: "180000 \<le> sum_list ?ds + 174000" by simp
  from t up have a: "fst (attempts serverA (500 # ?ds) ?w) = [False, False, False, False, False, True, True]"
    by simp
  from t ge have b: "map_of (restartCounterPerProject (elapse 174000 (snd (attempts serverA (500 # ?ds) ?w))))
         (projectPath serverA) = None"
    and c: "fst (hasServerReachedRestartLimit serverA (elapse 174000 (snd (attempts serverA (500 # ?ds) ?w))))
       = False"
    by blast+
  from fresh tm nt window a b c show ?thesis by blast
qed



section \<open>Routing of file changes\<close>

lemma watchedChanges_step:
  "(let changes1 =
          (if startsWith (path ev) (projectPath s) \<and> changeWatchedFileFilter env (path ev)
           then acc @ [at_index (atomFileEventToLSFileEvents env ev) 0]
           else acc)
    in case ev of
         FilesystemChangeRename newPath oldPath \<Rightarrow>
           (if startsWith oldPath (projectPath s) \<and> changeWatchedFileFilter env oldPath
            then changes1 @ [at_index (atomFileEventToLSFileEvents env ev) 1]
            else changes1)
       | FilesystemChangeBasic a p \<Rightarrow> changes1)
   = acc @ forwarded_records env s ev"
  by (cases ev) (simp_all add: eligible_def startsWith_def Let_def)

lemma fold_append_concat:
  "fold (\<lambda>x acc. acc @ g x) xs acc = acc @ concat (map g xs)"
  by (induction xs arbitrary: acc) simp_all

lemma watchedChanges_forwarded:
  "watchedChanges env s evs = concat (map (forwarded_records env s) evs)"
proof -
  have "watchedChanges env s evs = fold (\<lambda>ev acc. acc @ forwarded_records env s ev) evs []"
    unfolding watchedChanges_def by (simp only: watchedChanges_step)
  then show ?thesis by (simp add: fold_append_concat)
qed

lemma fold_notify:
  "fold (\<lambda>s w'. if c s then w'\<lparr>effects := effects w' @ [g s]\<rparr> else w') servers (w :: World)
   = w\<lparr>effects := effects w @ map g (filter c servers)\<rparr>"
  by (induction servers arbitrary: w) simp_all

lemma projectFilesChanged_forwarded:
  "projectFilesChanged env evs w
   = w\<lparr>effects := effects w
        @ map (\<lambda>s. DidChangeWatchedFiles s (concat (map (forwarded_records env s) evs)))
            (filter (\<lambda>s. concat (map (forwarded_records env s) evs) \<noteq> []) (activeServers w))\<rparr>"
proof (cases "activeServers w = []")
  case True
  then show ?thesis by (simp add: projectFilesChanged_def)
next
  case False
  have f: "(\<lambda>activeServer w'.
              (let changes = watchedChanges env activeServer evs
               in if length changes > 0
                  then w'\<lparr>effects := effects w' @ [DidChangeWatchedFiles activeServer changes]\<rparr>
                  else w'))
         = (\<lambda>s w'. if concat (map (forwarded_records env s) evs) \<noteq> []
                    then w'\<lparr>effects := effects w'
                           @ [DidChangeWatchedFiles s (concat (map (forwarded_records env s) evs))]\<rparr>
                    else (w' :: World))"
    by (intro ext) (simp add: Let_def watchedChanges_forwarded)
  from False show ?thesis
    unfolding projectFilesChanged_def f by (simp only: fold_notify) simp
qed

text \<open>
  C7. \<open>projectFilesChanged\<close> changes nothing but the calls made: for every active server,
  in registry order, whose batch of forwarded records is not empty, one
  \<open>didChangeWatchedFiles\<close> call carrying exactly the records of the events, in batch
  order, where an event contributes a record for its path when that path lies under the
  server's root and passes the filter and, for a rename, a further record when the old
  path does; a rename with both paths eligible contributes two records; a server whose
  batch is empty is not notified; with no active server the state is unchanged.
\<close>

theorem projectFilesChanged_routes_eligible_events:
  "projectFilesChanged env fileEvents w
     = w\<lparr>effects := effects w
          @ map (\<lambda>s. DidChangeWatchedFiles s (concat (map (forwarded_records env s) fileEvents)))
              (filter (\<lambda>s. concat (map (forwarded_records env s) fileEvents) \<noteq> []) (activeServers w))\<rparr>
   \<and> watchedChanges env server fileEvents = concat (map (forwarded_records env server) fileEvents)
   \<and> length (forwarded_records env server ev)
       = (if eligible env server (path ev) then 1 else 0)
         + (case ev of FilesystemChangeRename p old \<Rightarrow> if eligible env server old then 1 else 0
            | FilesystemChangeBasic a p \<Rightarrow> 0)
   \<and> (eligible env server p \<and> eligible env server old \<longrightarrow>
        forwarded_records env server (FilesystemChangeRename p old)
        = [at_index (atomFileEventToLSFileEvents env (FilesystemChangeRename p old)) 0,
           at_index (atomFileEventToLSFileEvents env (FilesystemChangeRename p old)) 1])
   \<and> (watchedChanges env server fileEvents = [] \<longrightarrow>
        (\<forall>cs. DidChangeWatchedFiles server cs
              \<notin> set (drop (length (effects w)) (effects (projectFilesChanged env fileEvents w)))))
   \<and> (activeServers w = [] \<longrightarrow> projectFilesChanged env fileEvents w = w)"
proof -
  have a: "length (forwarded_records env server ev)
       = (if eligible env server (path ev) then 1 else 0)
         + (case ev of FilesystemChangeRename p old \<Rightarrow> if eligible env server old then 1 else 0
            | FilesystemChangeBasic a p \<Rightarrow> 0)"
    by (cases ev) simp_all
  have b: "watchedChanges env server fileEvents = [] \<longrightarrow>
        (\<forall>cs. DidChangeWatchedFiles server cs
              \<notin> set (drop (length (effects w)) (effects (projectFilesChanged env fileEvents w))))"
    by (auto simp: projectFilesChanged_forwarded watchedChanges_forwarded)
  have c: "activeServers w = [] \<longrightarrow> projectFilesChanged env fileEvents w = w"
    by (simp add: projectFilesChanged_def)
  have d: "eligible env server p \<and> eligible env server old \<longrightarrow>
        forwarded_records env server (FilesystemChangeRename p old)
        = [at_index (atomFileEventToLSFileEvents env (FilesystemChangeRename p old)) 0,
           at_index (atomFileEventToLSFileEvents env (FilesystemChangeRename p old)) 1]"
    by simp
  note e = projectFilesChanged_forwarded[of env fileEvents w]
  note f = watchedChanges_forwarded[of env server fileEvents]
  from e f a d b c show ?thesis by blast
qed

theorem projectFilesChanged_routes_eligible_events_witness:
  "activeServers (run sampleEnv [GetServer 0 True, StartFulfilled 0 serverA, GetServer 3 True, StartFulfilled 1 serverC]
      (newServerManager sampleEnv [''/a'', ''/c'']))
     = [serverA, serverC]
   \<and> eligible sampleEnv serverA ''/a/new.txt'' \<and> eligible sampleEnv serverA ''/a/old.txt''
   \<and> drop 6 (effects (projectFilesChanged sampleEnv
        [FilesystemChangeBasic modified ''/a/x.txt'', FilesystemChangeBasic modified ''/other/b.txt'',
         FilesystemChangeRename ''/a/new.txt'' ''/a/old.txt'']
        (run sampleEnv [GetServer 0 True, StartFulfilled 0 serverA, GetServer 3 True, StartFulfilled 1 serverC]
           (newServerManager sampleEnv [''/a'', ''/c'']))))
     = [DidChangeWatchedFiles serverA
          [Some \<lparr>uri = ''/a/x.txt'', type = Changed\<rparr>,
           Some \<lparr>uri = ''/a/old.txt'', type = Deleted\<rparr>,
           Some \<lparr>uri = ''/a/new.txt'', type = Created\<rparr>]]
   \<and> watchedChanges sampleEnv serverC
        [FilesystemChangeBasic modified ''/a/x.txt'', FilesystemChangeBasic modified ''/other/b.txt'',
         FilesystemChangeRename ''/a/new.txt'' ''/a/old.txt''] = []
   \<and> activeServers (newServerManager sampleEnv [''/a'']) = []
   \<and> projectFilesChanged sampleEnv [FilesystemChangeBasic modified ''/a/x.txt''] (newServerManager sampleEnv [''/a''])
     = newServerManager sampleEnv [''/a'']"
proof -
  define w where "w = run sampleEnv [GetServer 0 True, StartFulfilled 0 serverA, GetServer 3 True, StartFulfilled 1 serverC]
      (newServerManager sampleEnv [''/a'', ''/c''])"
  define evs where "evs = [FilesystemChangeBasic modified ''/a/x.txt'', FilesystemChangeBasic modified ''/other/b.txt'',
         FilesystemChangeRename ''/a/new.txt'' ''/a/old.txt'']"
  note t = projectFilesChanged_routes_eligible_events[where env = sampleEnv and w = w
      and fileEvents = evs and server = serverC and p = "''/a/new.txt''" and old = "''/a/old.txt''"]
  note t0 = projectFilesChanged_routes_eligible_events[where env = sampleEnv
      and w = "newServerManager sampleEnv [''/a'']"
      and fileEvents = "[FilesystemChangeBasic modified ''/a/x.txt'']"]
  have act: "activeServers w = [serverA, serverC]"
    by (simp add: w_def eval_defs)
  have ef: "length (effects w) = 6"
    by (simp add: w_def eval_defs)
  have el: "eligible sampleEnv serverA ''/a/new.txt''" "eligible sampleEnv serverA ''/a/old.txt''"
    by (simp_all add: eligible_def sampleEnv_def serverA_def)
  have fa: "concat (map (forwarded_records sampleEnv serverA) evs)
      = [Some \<lparr>uri = ''/a/x.txt'', type = Changed\<rparr>,
         Some \<lparr>uri = ''/a/old.txt'', type = Deleted\<rparr>,
         Some \<lparr>uri = ''/a/new.txt'', type = Created\<rparr>]"
    by (simp add: evs_def eligible_def sampleEnv_def serverA_def at_index_def)
  have fc: "concat (map (forwarded_records sampleEnv serverC) evs) = []"
    by (simp add: evs_def eligible_def sampleEnv_def serverC_def at_index_def)
  from t have eq: "projectFilesChanged sampleEnv evs w
     = w\<lparr>effects := effects w
          @ map (\<lambda>s. DidChangeWatchedFiles s (concat (map (forwarded_records sampleEnv s) evs)))
              (filter (\<lambda>s. concat (map (forwarded_records sampleEnv s) evs) \<noteq> []) (activeServers w))\<rparr>"
    and wc: "watchedChanges sampleEnv serverC evs = concat (map (forwarded_records sampleEnv serverC) evs)"
    by blast+
  have "effects (projectFilesChanged sampleEnv evs w)
     = effects w @ [DidChangeWatchedFiles serverA
          [Some \<lparr>uri = ''/a/x.txt'', type = Changed\<rparr>,
           Some \<lparr>uri = ''/a/old.txt'', type = Deleted\<rparr>,
           Some \<lparr>uri = ''/a/new.txt'', type = Created\<rparr>]]"
    unfolding eq act by (simp add: fa fc del: concat_eq_Nil_conv)
  then have a: "drop 6 (effects (projectFilesChanged sampleEnv evs w))
     = [DidChangeWatchedFiles serverA
          [Some \<lparr>uri = ''/a/x.txt'', type = Changed\<rparr>,
           Some \<lparr>uri = ''/a/old.txt'', type = Deleted\<rparr>,
           Some \<lparr>uri = ''/a/new.txt'', type = Created\<rparr>]]"
    using ef by simp
  have b: "watchedChanges sampleEnv serverC evs = []"
    using wc fc by simp
  have n: "activeServers (newServerManager sampleEnv [''/a'']) = []"
    by (simp add: eval_defs)
  with t0 have c: "projectFilesChanged sampleEnv [FilesystemChangeBasic modified ''/a/x.txt'']
      (newServerManager sampleEnv [''/a'']) = newServerManager sampleEnv [''/a'']" by blast
  from act el a b n c show ?thesis unfolding w_def evs_def by blast
qed



section \<open>A failed start\<close>

lemma delete_update_absent:
  "map_of al k = None \<Longrightarrow> AList.delete k (AList.update k v al) = al"
proof -
  assume n: "map_of al k = None"
  then have "k \<notin> fst ` set al" by (simp add: map_of_eq_None_iff)
  then have "filter (\<lambda>(k', _). k \<noteq> k') al = al"
    by (force simp: filter_id_conv)
  with n show ?thesis by (simp add: update_absent AList.delete_eq)
qed

lemma every_event_append:
  "every_event ok env (xs @ ys) w
   \<longleftrightarrow> every_event ok env xs w \<and> every_event ok env ys (run env xs w)"
  unfolding run_def by (induction xs arbitrary: w) auto

text \<open>
  Under the invariant the frame of a suspended \<open>startServer(p)\<close> call is the only one for
  \<open>p\<close>, \<open>p\<close> has no active server, and its pending entry is that call's.
\<close>

lemma start_inv_frame:
  assumes inv: "start_inv w" and aw: "map_of (awaitingStart w) pr = Some p"
  shows "p \<notin> projectPath ` set (activeServers w)"
    and "map_of (startingServerPromises w) p = Some pr"
    and "p \<notin> snd ` set (AList.delete pr (awaitingStart w))"
proof -
  from aw have mem: "(pr, p) \<in> set (awaitingStart w)" by (rule map_of_SomeD)
  with inv show fresh: "p \<notin> projectPath ` set (activeServers w)"
    and own: "map_of (startingServerPromises w) p = Some pr"
    by (auto simp: start_inv_def)
  show "p \<notin> snd ` set (AList.delete pr (awaitingStart w))"
  proof
    assume "p \<in> snd ` set (AList.delete pr (awaitingStart w))"
    then obtain pr' where m: "(pr', p) \<in> set (awaitingStart w)" and ne: "pr' \<noteq> pr"
      by (auto simp: AList.delete_eq)
    from inv m have "map_of (startingServerPromises w) p = Some pr'"
      by (auto simp: start_inv_def)
    with own ne show False by simp
  qed
qed

text \<open>
  C6 (as amended). In every run in which \<open>startServer\<close> is called from outside only for
  a path that has neither an active server nor a pending start, and the start function
  resolves with an instance for the path it was called with: when the start promise a
  \<open>startServer(p)\<close> call is suspended on rejects with \<open>e\<close>, the call ends with \<open>e\<close>, the
  pending-start entry of \<open>p\<close> is removed and nothing else of the manager changes; \<open>p\<close> is
  absent afterwards (no active server, no pending start, no other start for \<open>p\<close> in
  flight); the run continued with a \<open>startServer(p)\<close> is again such a run, and that call
  calls the start function again and registers a new pending start. In particular a
  \<open>startServer(p)\<close> from the absent state whose promise rejects at once leaves every
  field of the manager as it was.
\<close>

theorem startServer_rejection_restores_absent:
  assumes "every_event guarded_starts env evs (newServerManager env dirs)"
    and "map_of (awaitingStart (run env evs (newServerManager env dirs))) pr = Some p"
  shows "fst (startServer_resume pr (Inl e) (run env evs (newServerManager env dirs))) = Some (Inl e)
    \<and> snd (startServer_resume pr (Inl e) (run env evs (newServerManager env dirs)))
        = (run env evs (newServerManager env dirs))
            \<lparr>startingServerPromises :=
               AList.delete p (startingServerPromises (run env evs (newServerManager env dirs))),
             awaitingStart := AList.delete pr (awaitingStart (run env evs (newServerManager env dirs)))\<rparr>
    \<and> map_of (startingServerPromises
          (snd (startServer_resume pr (Inl e) (run env evs (newServerManager env dirs))))) p = None
    \<and> p \<notin> projectPath ` set (activeServers
          (snd (startServer_resume pr (Inl e) (run env evs (newServerManager env dirs)))))
    \<and> p \<notin> snd ` set (awaitingStart
          (snd (startServer_resume pr (Inl e) (run env evs (newServerManager env dirs)))))
    \<and> every_event guarded_starts env (evs @ [StartRejected pr e, StartServer p]) (newServerManager env dirs)
    \<and> map_of (startingServerPromises (snd (startServer p
          (snd (startServer_resume pr (Inl e) (run env evs (newServerManager env dirs))))))) p
        = Some (fst (startServer p
            (snd (startServer_resume pr (Inl e) (run env evs (newServerManager env dirs))))))
    \<and> start_calls p (snd (startServer p
          (snd (startServer_resume pr (Inl e) (run env evs (newServerManager env dirs))))))
        = start_calls p (run env evs (newServerManager env dirs)) + 1
    \<and> (map_of (startingServerPromises v) p = None \<and> map_of (awaitingStart v) (nextPromise v) = None \<longrightarrow>
         activeServers (snd (startServer_resume (fst (startServer p v)) (Inl e) (snd (startServer p v))))
           = activeServers v
         \<and> startingServerPromises (snd (startServer_resume (fst (startServer p v)) (Inl e) (snd (startServer p v))))
           = startingServerPromises v
         \<and> restartCounterPerProject (snd (startServer_resume (fst (startServer p v)) (Inl e) (snd (startServer p v))))
           = restartCounterPerProject v
         \<and> stoppingServers (snd (startServer_resume (fst (startServer p v)) (Inl e) (snd (startServer p v))))
           = stoppingServers v
         \<and> editorToServer (snd (startServer_resume (fst (startServer p v)) (Inl e) (snd (startServer p v))))
           = editorToServer v
         \<and> normalizedProjectPaths (snd (startServer_resume (fst (startServer p v)) (Inl e) (snd (startServer p v))))
           = normalizedProjectPaths v)"
proof -
  define w where "w = run env evs (newServerManager env dirs)"
  let ?w' = "snd (startServer_resume pr (Inl e) w)"
  have aw: "map_of (awaitingStart w) pr = Some p"
    using assms(2) by (simp add: w_def)
  have inv: "start_inv w"
    unfolding w_def using assms(1) start_inv_new by (rule start_inv_run)
  have eq: "?w' = w\<lparr>startingServerPromises := AList.delete p (startingServerPromises w),
                    awaitingStart := AList.delete pr (awaitingStart w)\<rparr>"
    using aw by (simp add: startServer_resume_def startServer_rejected_def Let_def)
  have r: "fst (startServer_resume pr (Inl e) w) = Some (Inl e)"
    using aw by (simp add: startServer_resume_def startServer_rejected_def Let_def)
  have a: "map_of (startingServerPromises ?w') p = None"
    by (simp add: eq AList.delete_conv)
  have b: "p \<notin> projectPath ` set (activeServers ?w')"
    using start_inv_frame(1)[OF inv aw] by (simp add: eq)
  have b': "p \<notin> snd ` set (awaitingStart ?w')"
    using start_inv_frame(3)[OF inv aw] by (simp add: eq)
  have "every_event guarded_starts env [StartRejected pr e, StartServer p] w"
    using a b by simp
  with assms(1) have g: "every_event guarded_starts env (evs @ [StartRejected pr e, StartServer p])
      (newServerManager env dirs)"
    by (simp add: every_event_append w_def)
  have c: "map_of (startingServerPromises (snd (startServer p ?w'))) p = Some (fst (startServer p ?w'))"
    by (simp add: startServer_def Let_def AList.update_conv')
  have d: "start_calls p (snd (startServer p ?w')) = start_calls p w + 1"
    by (simp add: eq start_calls_def startServer_def Let_def)
  have f: "activeServers (snd (startServer_resume (fst (startServer p v)) (Inl e) (snd (startServer p v))))
           = activeServers v
         \<and> startingServerPromises (snd (startServer_resume (fst (startServer p v)) (Inl e) (snd (startServer p v))))
           = startingServerPromises v
         \<and> restartCounterPerProject (snd (startServer_resume (fst (startServer p v)) (Inl e) (snd (startServer p v))))
           = restartCounterPerProject v
         \<and> stoppingServers (snd (startServer_resume (fst (startServer p v)) (Inl e) (snd (startServer p v))))
           = stoppingServers v
         \<and> editorToServer (snd (startServer_resume (fst (startServer p v)) (Inl e) (snd (startServer p v))))
           = editorToServer v
         \<and> normalizedProjectPaths (snd (startServer_resume (fst (startServer p v)) (Inl e) (snd (startServer p v))))
           = normalizedProjectPaths v"
    if n1: "map_of (startingServerPromises v) p = None" and n2: "map_of (awaitingStart v) (nextPromise v) = None"
  proof -
    let ?v1 = "snd (startServer p v)"
    have pr1: "fst (startServer p v) = nextPromise v"
      by (simp add: startServer_def Let_def)
    have aw1: "map_of (awaitingStart ?v1) (nextPromise v) = Some p"
      using n2 by (simp add: startServer_def Let_def map_add_Some_iff)
    have "snd (startServer_resume (nextPromise v) (Inl e) ?v1)
        = ?v1\<lparr>startingServerPromises := AList.delete p (startingServerPromises ?v1),
               awaitingStart := AList.delete (nextPromise v) (awaitingStart ?v1)\<rparr>"
      using aw1 by (simp add: startServer_resume_def startServer_rejected_def Let_def)
    moreover have "AList.delete p (startingServerPromises ?v1) = startingServerPromises v"
      using n1 by (simp add: startServer_def Let_def delete_update_absent)
    ultimately show ?thesis
      unfolding pr1 by (simp add: startServer_def Let_def)
  qed
  have h: "map_of (startingServerPromises v) p = None \<and> map_of (awaitingStart v) (nextPromise v) = None \<longrightarrow>
         activeServers (snd (startServer_resume (fst (startServer p v)) (Inl e) (snd (startServer p v))))
           = activeServers v
         \<and> startingServerPromises (snd (startServer_resume (fst (startServer p v)) (Inl e) (snd (startServer p v))))
           = startingServerPromises v
         \<and> restartCounterPerProject (snd (startServer_resume (fst (startServer p v)) (Inl e) (snd (startServer p v))))
           = restartCounterPerProject v
         \<and> stoppingServers (snd (startServer_resume (fst (startServer p v)) (Inl e) (snd (startServer p v))))
           = stoppingServers v
         \<and> editorToServer (snd (startServer_resume (fst (startServer p v)) (Inl e) (snd (startServer p v))))
           = editorToServer v
         \<and> normalizedProjectPaths (snd (startServer_resume (fst (startServer p v)) (Inl e) (snd (startServer p v))))
           = normalizedProjectPaths v"
    using f by (intro impI) (elim conjE)
  from r eq a b b' g c d h show ?thesis
    unfolding w_def by - (intro conjI; assumption)
qed

text \<open>
  An instance: the start of server A, requested through \<open>getServer\<close>, fails; the path is
  absent afterwards, the run goes on with a retry, which is the second call of the start
  function for the path.
\<close>

theorem startServer_rejection_restores_absent_witness:
  "every_event guarded_starts sampleEnv [GetServer 0 True] (newServerManager sampleEnv [''/a''])
   \<and> map_of (awaitingStart (run sampleEnv [GetServer 0 True] (newServerManager sampleEnv [''/a'']))) 0 = Some ''/a/''
   \<and> map_of (startingServerPromises (run sampleEnv [GetServer 0 True] (newServerManager sampleEnv [''/a''])))
        ''/a/'' = Some 0
   \<and> fst (startServer_resume 0 (Inl ''spawn failed'')
          (run sampleEnv [GetServer 0 True] (newServerManager sampleEnv [''/a''])))
       = Some (Inl ''spawn failed'')
   \<and> map_of (startingServerPromises (snd (startServer_resume 0 (Inl ''spawn failed'')
          (run sampleEnv [GetServer 0 True] (newServerManager sampleEnv [''/a''])))))
        ''/a/'' = None
   \<and> ''/a/'' \<notin> projectPath ` set (activeServers (snd (startServer_resume 0 (Inl ''spawn failed'')
          (run sampleEnv [GetServer 0 True] (newServerManager sampleEnv [''/a''])))))
   \<and> ''/a/'' \<notin> snd ` set (awaitingStart (snd (startServer_resume 0 (Inl ''spawn failed'')
          (run sampleEnv [GetServer 0 True] (newServerManager sampleEnv [''/a''])))))
   \<and> every_event guarded_starts sampleEnv
        ([GetServer 0 True] @ [StartRejected 0 ''spawn failed'', StartServer ''/a/''])
        (newServerManager sampleEnv [''/a''])
   \<and> start_calls ''/a/'' (snd (startServer ''/a/'' (snd (startServer_resume 0 (Inl ''spawn failed'')
          (run sampleEnv [GetServer 0 True] (newServerManager sampleEnv [''/a'']))))))
       = 2
   \<and> startingServerPromises
        (snd (startServer_resume (fst (startServer ''/a/'' (newServerManager sampleEnv [''/a''])))
           (Inl ''spawn failed'') (snd (startServer ''/a/'' (newServerManager sampleEnv [''/a''])))))
       = startingServerPromises (newServerManager sampleEnv [''/a''])"
proof -
  define w0 where "w0 = newServerManager sampleEnv [''/a'']"
  define w where "w = run sampleEnv [GetServer 0 True] w0"
  have run: "every_event guarded_starts sampleEnv [GetServer 0 True] w0"
    by simp
  have aw: "map_of (awaitingStart w) 0 = Some ''/a/''"
    and pend: "map_of (startingServerPromises w) ''/a/'' = Some 0"
    and sc: "start_calls ''/a/'' w = 1"
    by (simp_all add: w_def w0_def eval_defs)
  have v: "map_of (startingServerPromises w0) ''/a/'' = None \<and> map_of (awaitingStart w0) (nextPromise w0) = None"
    by (simp add: w0_def eval_defs)
  note t = startServer_rejection_restores_absent[OF run[unfolded w0_def] aw[unfolded w_def w0_def],
      where e = "''spawn failed''" and v = w0, folded w0_def, folded w_def]
  from t have a: "fst (startServer_resume 0 (Inl ''spawn failed'') w) = Some (Inl ''spawn failed'')"
    and b: "map_of (startingServerPromises (snd (startServer_resume 0 (Inl ''spawn failed'') w))) ''/a/'' = None"
    and c: "''/a/'' \<notin> projectPath ` set (activeServers (snd (startServer_resume 0 (Inl ''spawn failed'') w)))"
    and c': "''/a/'' \<notin> snd ` set (awaitingStart (snd (startServer_resume 0 (Inl ''spawn failed'') w)))"
    and g: "every_event guarded_starts sampleEnv
        ([GetServer 0 True] @ [StartRejected 0 ''spawn failed'', StartServer ''/a/'']) w0"
    and d: "start_calls ''/a/'' (snd (startServer ''/a/'' (snd (startServer_resume 0 (Inl ''spawn failed'') w))))
       = start_calls ''/a/'' w + 1"
    by blast+
  from t v have e: "startingServerPromises
        (snd (startServer_resume (fst (startServer ''/a/'' w0)) (Inl ''spawn failed'') (snd (startServer ''/a/'' w0))))
       = startingServerPromises w0"
    by blast
  from d sc have d': "start_calls ''/a/'' (snd (startServer ''/a/'' (snd (startServer_resume 0 (Inl ''spawn failed'') w)))) = 2"
    by simp
  from run aw pend a b c c' g d' e show ?thesis
    unfolding w_def w0_def by blast
qed

text \<open>
  As stated, for every \<open>startServer(p)\<close> whose start fails, the claim fails: called from
  outside while \<open>p\<close> has an active server, or while another start for \<open>p\<close> is pending that
  then succeeds, the failing call propagates its error and leaves \<open>p\<close> with an active
  server.
\<close>

theorem startServer_rejection_leaves_active:
  "map_of (awaitingStart (run sampleEnv [GetServer 0 True, StartFulfilled 0 serverA, StartServer ''/a/'']
        (newServerManager sampleEnv [''/a'']))) 1 = Some ''/a/''
   \<and> fst (startServer_resume 1 (Inl ''spawn failed'')
        (run sampleEnv [GetServer 0 True, StartFulfilled 0 serverA, StartServer ''/a/'']
           (newServerManager sampleEnv [''/a''])))
      = Some (Inl ''spawn failed'')
   \<and> ''/a/'' \<in> projectPath ` set (activeServers (snd (startServer_resume 1 (Inl ''spawn failed'')
        (run sampleEnv [GetServer 0 True, StartFulfilled 0 serverA, StartServer ''/a/'']
           (newServerManager sampleEnv [''/a''])))))
   \<and> map_of (awaitingStart (run sampleEnv [StartServer ''/a/'', StartServer ''/a/'', StartFulfilled 0 serverA]
        (newServerManager sampleEnv [''/a'']))) 1 = Some ''/a/''
   \<and> fst (startServer_resume 1 (Inl ''spawn failed'')
        (run sampleEnv [StartServer ''/a/'', StartServer ''/a/'', StartFulfilled 0 serverA]
           (newServerManager sampleEnv [''/a''])))
      = Some (Inl ''spawn failed'')
   \<and> ''/a/'' \<in> projectPath ` set (activeServers (snd (startServer_resume 1 (Inl ''spawn failed'')
        (run sampleEnv [StartServer ''/a/'', StartServer ''/a/'', StartFulfilled 0 serverA]
           (newServerManager sampleEnv [''/a''])))))"
  by (simp add: eval_defs)

text \<open>
  The condition on the start function is needed as well: with starts pending for \<open>/a/\<close>
  and \<open>/c/\<close>, the first resolving with an instance for \<open>/c/\<close>, the failure of the second
  leaves \<open>/c/\<close> with an active server.
\<close>

lemma start_function_other_path_leaves_active:
  "map_of (awaitingStart (run sampleEnv [GetServer 0 True, GetServer 3 True, StartFulfilled 0 serverC]
        (newServerManager sampleEnv [''/a'', ''/c'']))) 1 = Some ''/c/''
   \<and> ''/c/'' \<in> projectPath ` set (activeServers (snd (startServer_resume 1 (Inl ''spawn failed'')
        (run sampleEnv [GetServer 0 True, GetServer 3 True, StartFulfilled 0 serverC]
           (newServerManager sampleEnv [''/a'', ''/c''])))))"
  by (simp add: eval_defs)



section \<open>Stopping a server\<close>

lemma fold_delete_set:
  "set (fold (\<lambda>(editor, mappedServer) m. if mappedServer = s then AList.delete editor m else m) xs m)
   = {(e, t) \<in> set m. \<forall>(e', t') \<in> set xs. t' = s \<longrightarrow> e' \<noteq> e}"
proof (induction xs arbitrary: m)
  case Nil
  show ?case by auto
next
  case (Cons x xs)
  obtain e0 t0 where x: "x = (e0, t0)" by (cases x)
  show ?case
    unfolding x by (simp add: Cons.IH) (auto simp: AList.delete_eq)
qed

lemma deleteEditorsOf_unmapped: "s \<notin> snd ` set (deleteEditorsOf s al)"
  unfolding deleteEditorsOf_def fold_delete_set by auto

lemma deleteEditorsOf_others:
  "t \<noteq> s \<Longrightarrow> (e, s) \<notin> set al \<Longrightarrow> (e, t) \<in> set al \<Longrightarrow> (e, t) \<in> set (deleteEditorsOf s al)"
  unfolding deleteEditorsOf_def fold_delete_set by auto

lemma exitServer_fields:
  "activeServers (snd (exitServer env s w)) = activeServers w
   \<and> editorToServer (snd (exitServer env s w)) = editorToServer w
   \<and> stoppingServers (snd (exitServer env s w)) = stoppingServers w"
  by (auto simp: exitServer_def Let_def split: option.splits)

lemma exitServer_kill:
  "ProcessKill s \<in> set (drop (length (effects w)) (effects (snd (exitServer env s w))))"
  by (simp add: exitServer_effects)

lemma stopServer_resume_post:
  "activeServers (snd (stopServer_resume env s w)) = activeServers w
   \<and> editorToServer (snd (stopServer_resume env s w)) = deleteEditorsOf s (editorToServer w)
   \<and> ProcessKill s \<in> set (drop (length (effects w)) (effects (snd (stopServer_resume env s w))))"
proof -
  let ?w1 = "w\<lparr>editorToServer := deleteEditorsOf s (editorToServer w)\<rparr>"
  obtain thrown w2 where ex: "exitServer env s ?w1 = (thrown, w2)" by (cases "exitServer env s ?w1")
  from exitServer_kill[of s ?w1 env] ex
  have k: "ProcessKill s \<in> set (drop (length (effects w)) (effects w2))" by simp
  from exitServer_fields[of env s ?w1] ex
  have f: "activeServers w2 = activeServers w" "editorToServer w2 = deleteEditorsOf s (editorToServer w)"
    by simp_all
  from ex k f show ?thesis
    by (auto simp: stopServer_resume_def Let_def split: option.splits)
qed

lemma step_keeps_absent:
  assumes "s \<notin> set (activeServers w)" and "\<forall>pr. ev \<noteq> StartFulfilled pr s"
  shows "s \<notin> set (activeServers (step env ev w))"
proof -
  from step_cases[where env=env and w=w and ev=ev]
  consider (q) "quiet env w (step env ev w)"
    | (g) e b where "step env ev w = snd (getServer env e b w)"
    | (st) p where "ev = StartServer p"
    | (f) pr t where "ev = StartFulfilled pr t"
    | (r) pr e where "ev = StartRejected pr e"
    by blast
  then show ?thesis
  proof cases
    case q
    then have "set (activeServers (step env ev w)) \<subseteq> set (activeServers w)"
      by (auto simp: quiet_def dest: subseq_set)
    with assms(1) show ?thesis by auto
  next
    case g
    with getServer_cases[where env=env and e=e and b=b and w=w] assms(1) show ?thesis
      by (auto simp: startServer_def Let_def)
  next
    case st
    with assms(1) show ?thesis by (simp add: startServer_def Let_def)
  next
    case f
    with assms have "t \<noteq> s" by auto
    with f assms(1) show ?thesis
      by (auto simp: startServer_resume_def startServer_fulfilled_def Let_def split: option.splits)
  next
    case r
    with assms(1) show ?thesis
      by (auto simp: startServer_resume_def startServer_rejected_def Let_def split: option.splits)
  qed
qed

lemma run_keeps_absent:
  "s \<notin> set (activeServers w) \<Longrightarrow> \<forall>pr. StartFulfilled pr s \<notin> set evs
   \<Longrightarrow> s \<notin> set (activeServers (run env evs w))"
  unfolding run_def
proof (induction evs arbitrary: w)
  case Nil
  then show ?case by simp
next
  case (Cons ev evs)
  from Cons.prems have "\<forall>pr. ev \<noteq> StartFulfilled pr s" by auto
  with Cons.prems(1) have "s \<notin> set (activeServers (step env ev w))" by (rule step_keeps_absent)
  moreover from Cons.prems have "\<forall>pr. StartFulfilled pr s \<notin> set evs" by auto
  ultimately show ?case using Cons.IH by simp
qed

lemma stopServer_removes:
  assumes "s \<in> set (activeServers w)" and "distinct (activeServers w)"
  shows "s \<notin> set (activeServers (snd (stopServer env s w)))"
proof -
  from assms have r: "s \<notin> set (splice1 (indexOf (activeServers w) s) (activeServers w))"
    by (simp add: splice1_indexOf)
  show ?thesis
  proof (cases "isConnected (connections w s)")
    case True
    with r show ?thesis by (simp add: stopServer_connected)
  next
    case False
    with r stopServer_resume_post[of env s] show ?thesis
      by (simp add: stopServer_disconnected)
  qed
qed


text \<open>
  C4. For a server that is in the active registry (once): when \<open>stopServer\<close> returns
  control to its caller, whether completed or suspended on \<open>shutdown\<close>, the server is no
  longer in the registry; for a connected server the call is suspended exactly after
  the removal, the disposal of its bookkeeping and the sending of \<open>shutdown\<close>. When the
  call then completes, after any events in between that do not hand the same instance
  out again as the result of a start, the server is not in the registry, no editor is
  mapped to it, and \<open>kill\<close> has been called on its process. The same holds at once for
  a server that is not connected.
\<close>

theorem stopServer_postcondition:
  assumes active: "server \<in> set (activeServers w)" and once: "distinct (activeServers w)"
    and fresh: "\<forall>pr. StartFulfilled pr server \<notin> set evs"
  shows "server \<notin> set (activeServers (snd (stopServer env server w)))
    \<and> (isConnected (connections w server) \<longrightarrow>
         fst (stopServer env server w) = Suspended
         \<and> effects (snd (stopServer env server w))
             = effects w @ [ReportBusyWhile server, LoggerDebug (ServerStopping (projectPath server)),
                            DisposableDispose server, ConnectionShutdown server]
         \<and> (fst (shutdown_settled env server None (run env evs (snd (stopServer env server w)))) = Fulfilled
              \<longrightarrow> server \<notin> set (activeServers
                     (snd (shutdown_settled env server None (run env evs (snd (stopServer env server w))))))
                \<and> server \<notin> snd ` set (editorToServer
                     (snd (shutdown_settled env server None (run env evs (snd (stopServer env server w))))))
                \<and> ProcessKill server \<in> set (drop (length (effects (run env evs (snd (stopServer env server w)))))
                     (effects
                       (snd (shutdown_settled env server None (run env evs (snd (stopServer env server w)))))))))
    \<and> (\<not> isConnected (connections w server) \<and> fst (stopServer env server w) = Fulfilled \<longrightarrow>
         server \<notin> snd ` set (editorToServer (snd (stopServer env server w)))
         \<and> ProcessKill server \<in> set (drop (length (effects w)) (effects (snd (stopServer env server w)))))"
proof -
  let ?w1 = "snd (stopServer env server w)"
  let ?w2 = "run env evs ?w1"
  have a: "server \<notin> set (activeServers ?w1)"
    using active once by (rule stopServer_removes)
  have b: "fst (stopServer env server w) = Suspended
         \<and> effects ?w1 = effects w @ [ReportBusyWhile server, LoggerDebug (ServerStopping (projectPath server)),
                            DisposableDispose server, ConnectionShutdown server]"
    if "isConnected (connections w server)"
    using that by (simp add: stopServer_connected)
  have c: "server \<notin> set (activeServers (snd (shutdown_settled env server None ?w2)))
           \<and> server \<notin> snd ` set (editorToServer (snd (shutdown_settled env server None ?w2)))
           \<and> ProcessKill server \<in> set (drop (length (effects ?w2))
                 (effects (snd (shutdown_settled env server None ?w2))))"
    if f: "fst (shutdown_settled env server None ?w2) = Fulfilled"
  proof -
    from a fresh have abs: "server \<notin> set (activeServers ?w2)" by (rule run_keeps_absent)
    from f have mem: "server \<in> set (awaitingShutdown ?w2)"
      by (auto simp: shutdown_settled_def split: if_splits)
    let ?w3 = "?w2\<lparr>awaitingShutdown := remove1 server (awaitingShutdown ?w2)\<rparr>"
    from mem have eq: "shutdown_settled env server None ?w2 = stopServer_resume env server ?w3"
      by (simp add: shutdown_settled_def Let_def)
    from stopServer_resume_post[of env server ?w3]
    have p1: "activeServers (snd (stopServer_resume env server ?w3)) = activeServers ?w2"
      and p2: "editorToServer (snd (stopServer_resume env server ?w3)) = deleteEditorsOf server (editorToServer ?w2)"
      and p3: "ProcessKill server \<in> set (drop (length (effects ?w3)) (effects (snd (stopServer_resume env server ?w3))))"
      by simp_all
    from p3 have "ProcessKill server \<in> set (drop (length (effects ?w2))
        (effects (snd (stopServer_resume env server ?w3))))"
      by simp
    with abs p1 p2 show ?thesis
      unfolding eq by (simp add: deleteEditorsOf_unmapped)
  qed
  have d: "server \<notin> snd ` set (editorToServer ?w1)
           \<and> ProcessKill server \<in> set (drop (length (effects w)) (effects ?w1))"
    if "\<not> isConnected (connections w server)"
  proof -
    let ?w0 = "w\<lparr>activeServers := splice1 (indexOf (activeServers w) server) (activeServers w),
                 stoppingServers := stoppingServers w @ [server],
                 effects := effects w @ [ReportBusyWhile server, LoggerDebug (ServerStopping (projectPath server)),
                                         DisposableDispose server]\<rparr>"
    from that have eq: "stopServer env server w = stopServer_resume env server ?w0"
      by (rule stopServer_disconnected)
    from stopServer_resume_post[of env server ?w0]
    have p2: "editorToServer (snd (stopServer_resume env server ?w0)) = deleteEditorsOf server (editorToServer ?w0)"
      and p3: "ProcessKill server \<in> set (drop (length (effects ?w0)) (effects (snd (stopServer_resume env server ?w0))))"
      by simp_all
    have "set (drop (length (effects ?w0)) (effects (snd (stopServer_resume env server ?w0))))
          \<subseteq> set (drop (length (effects w)) (effects (snd (stopServer_resume env server ?w0))))"
      by (rule set_drop_subset_set_drop) simp
    with p3 have "ProcessKill server \<in> set (drop (length (effects w))
        (effects (snd (stopServer_resume env server ?w0))))"
      by blast
    with p2 show ?thesis
      unfolding eq by (simp add: deleteEditorsOf_unmapped)
  qed
  from a b c d show ?thesis by blast
qed

theorem stopServer_postcondition_witness:
  "activeServers (run sampleEnv
       [GetServer 0 True, StartFulfilled 0 serverA, HandleTextEditorResume 0 (Some serverA)]
       (newServerManager sampleEnv [''/a''])) = [serverA]
   \<and> isConnected (connections (run sampleEnv
       [GetServer 0 True, StartFulfilled 0 serverA, HandleTextEditorResume 0 (Some serverA)]
       (newServerManager sampleEnv [''/a''])) serverA)
   \<and> stopServer sampleEnv serverA (run sampleEnv
       [GetServer 0 True, StartFulfilled 0 serverA, HandleTextEditorResume 0 (Some serverA)]
       (newServerManager sampleEnv [''/a'']))
     = (Suspended, run sampleEnv
       [GetServer 0 True, StartFulfilled 0 serverA, HandleTextEditorResume 0 (Some serverA), StopServer serverA]
       (newServerManager sampleEnv [''/a'']))
   \<and> activeServers (run sampleEnv
       [GetServer 0 True, StartFulfilled 0 serverA, HandleTextEditorResume 0 (Some serverA), StopServer serverA]
       (newServerManager sampleEnv [''/a''])) = []
   \<and> editorToServer (run sampleEnv
       [GetServer 0 True, StartFulfilled 0 serverA, HandleTextEditorResume 0 (Some serverA), StopServer serverA,
        HandleTextEditorResume 1 (Some serverA)]
       (newServerManager sampleEnv [''/a''])) = [(0, serverA), (1, serverA)]
   \<and> fst (shutdown_settled sampleEnv serverA None (run sampleEnv
       [GetServer 0 True, StartFulfilled 0 serverA, HandleTextEditorResume 0 (Some serverA), StopServer serverA,
        HandleTextEditorResume 1 (Some serverA)]
       (newServerManager sampleEnv [''/a'']))) = Fulfilled
   \<and> serverA \<notin> set (activeServers (run sampleEnv
       [GetServer 0 True, StartFulfilled 0 serverA, HandleTextEditorResume 0 (Some serverA), StopServer serverA,
        HandleTextEditorResume 1 (Some serverA), ShutdownFulfilled serverA]
       (newServerManager sampleEnv [''/a''])))
   \<and> serverA \<notin> snd ` set (editorToServer (run sampleEnv
       [GetServer 0 True, StartFulfilled 0 serverA, HandleTextEditorResume 0 (Some serverA), StopServer serverA,
        HandleTextEditorResume 1 (Some serverA), ShutdownFulfilled serverA]
       (newServerManager sampleEnv [''/a''])))
   \<and> ProcessKill serverA \<in> set (effects (run sampleEnv
       [GetServer 0 True, StartFulfilled 0 serverA, HandleTextEditorResume 0 (Some serverA), StopServer serverA,
        HandleTextEditorResume 1 (Some serverA), ShutdownFulfilled serverA]
       (newServerManager sampleEnv [''/a''])))
   \<and> fst (stopServer sampleEnv serverA (run sampleEnv
       [GetServer 0 True, StartFulfilled 0 serverA, HandleTextEditorResume 0 (Some serverA), ConnectionClosed serverA]
       (newServerManager sampleEnv [''/a'']))) = Fulfilled
   \<and> serverA \<notin> snd ` set (editorToServer (snd (stopServer sampleEnv serverA (run sampleEnv
       [GetServer 0 True, StartFulfilled 0 serverA, HandleTextEditorResume 0 (Some serverA), ConnectionClosed serverA]
       (newServerManager sampleEnv [''/a''])))))
   \<and> ProcessKill serverA \<in> set (effects (snd (stopServer sampleEnv serverA (run sampleEnv
       [GetServer 0 True, StartFulfilled 0 serverA, HandleTextEditorResume 0 (Some serverA), ConnectionClosed serverA]
       (newServerManager sampleEnv [''/a''])))))"
proof -
  define w0 where "w0 = newServerManager sampleEnv [''/a'']"
  define pre where "pre = [GetServer 0 True, StartFulfilled 0 serverA, HandleTextEditorResume 0 (Some serverA)]"
  define w where "w = run sampleEnv pre w0"
  define evs where "evs = [HandleTextEditorResume 1 (Some serverA)]"
  define v where "v = run sampleEnv (pre @ [ConnectionClosed serverA]) w0"
  have run_app: "run sampleEnv (xs @ ys) u = run sampleEnv ys (run sampleEnv xs u)" for xs ys u
    by (simp add: run_def)
  have act: "activeServers w = [serverA]" and con: "isConnected (connections w serverA)"
    by (simp_all add: w_def w0_def pre_def eval_defs handleTextEditor_resume_def subscribe_def newConnection_def)
  have actv: "activeServers v = [serverA]" and conv: "\<not> isConnected (connections v serverA)"
    by (simp_all add: v_def w0_def pre_def eval_defs handleTextEditor_resume_def subscribe_def newConnection_def
          rpc_onClose_def emit_def)
  have fr: "\<forall>pr. StartFulfilled pr serverA \<notin> set evs" by (simp add: evs_def)
  have frv: "\<forall>pr. StartFulfilled pr serverA \<notin> set []" by simp
  have inw: "serverA \<in> set (activeServers w)" and dw: "distinct (activeServers w)" by (simp_all add: act)
  have inv: "serverA \<in> set (activeServers v)" and dv: "distinct (activeServers v)" by (simp_all add: actv)
  note t = stopServer_postcondition[OF inw dw fr, where env = sampleEnv]
  note tv = stopServer_postcondition[OF inv dv frv, where env = sampleEnv]
  have s1: "run sampleEnv (pre @ [StopServer serverA]) w0 = snd (stopServer sampleEnv serverA w)"
    by (simp add: run_app w_def) (simp add: run_def)
  have s2: "run sampleEnv (pre @ [StopServer serverA] @ evs) w0
            = run sampleEnv evs (snd (stopServer sampleEnv serverA w))"
    by (simp only: run_app s1[symmetric] append_assoc[symmetric])
  have s3: "run sampleEnv (pre @ [StopServer serverA] @ evs @ [ShutdownFulfilled serverA]) w0
            = snd (shutdown_settled sampleEnv serverA None (run sampleEnv evs (snd (stopServer sampleEnv serverA w))))"
    by (simp only: run_app s2[symmetric] append_assoc[symmetric]) (simp add: run_def)
  from t con have sus: "fst (stopServer sampleEnv serverA w) = Suspended"
    and rem: "serverA \<notin> set (activeServers (snd (stopServer sampleEnv serverA w)))"
    by blast+
  from sus have a: "stopServer sampleEnv serverA w = (Suspended, run sampleEnv (pre @ [StopServer serverA]) w0)"
    by (simp add: s1 prod_eq_iff)
  have b: "activeServers (run sampleEnv (pre @ [StopServer serverA]) w0) = []"
    unfolding s1 using act con by (simp add: stopServer_connected splice1_def)
  have c: "editorToServer (run sampleEnv (pre @ [StopServer serverA] @ evs) w0) = [(0, serverA), (1, serverA)]"
    by (simp add: w0_def pre_def evs_def eval_defs handleTextEditor_resume_def subscribe_def newConnection_def
          stopServer_def)
  have d: "fst (shutdown_settled sampleEnv serverA None (run sampleEnv (pre @ [StopServer serverA] @ evs) w0))
           = Fulfilled"
    by (simp add: w0_def pre_def evs_def eval_defs handleTextEditor_resume_def subscribe_def newConnection_def
          stopServer_def shutdown_settled_def stopServer_resume_def exitServer_def case_prod_unfold)
  from t con d have "serverA \<notin> set (activeServers (run sampleEnv (pre @ [StopServer serverA] @ evs @ [ShutdownFulfilled serverA]) w0))
      \<and> serverA \<notin> snd ` set (editorToServer (run sampleEnv (pre @ [StopServer serverA] @ evs @ [ShutdownFulfilled serverA]) w0))
      \<and> ProcessKill serverA \<in> set (drop (length (effects (run sampleEnv (pre @ [StopServer serverA] @ evs) w0)))
            (effects (run sampleEnv (pre @ [StopServer serverA] @ evs @ [ShutdownFulfilled serverA]) w0)))"
    unfolding s3 s2 by blast
  then have e: "serverA \<notin> set (activeServers (run sampleEnv (pre @ [StopServer serverA] @ evs @ [ShutdownFulfilled serverA]) w0))
      \<and> serverA \<notin> snd ` set (editorToServer (run sampleEnv (pre @ [StopServer serverA] @ evs @ [ShutdownFulfilled serverA]) w0))
      \<and> ProcessKill serverA \<in> set (effects (run sampleEnv (pre @ [StopServer serverA] @ evs @ [ShutdownFulfilled serverA]) w0))"
    by (blast dest: in_set_dropD)
  have f: "fst (stopServer sampleEnv serverA v) = Fulfilled"
    using conv by (simp add: stopServer_disconnected stopServer_resume_def exitServer_def
          case_prod_unfold sampleEnv_def)
  from tv conv f have g: "serverA \<notin> snd ` set (editorToServer (snd (stopServer sampleEnv serverA v)))
      \<and> ProcessKill serverA \<in> set (effects (snd (stopServer sampleEnv serverA v)))"
    by (blast dest: in_set_dropD)
  from act con a b c d e f g show ?thesis
    unfolding w_def v_def pre_def evs_def w0_def by simp
qed



section \<open>Restarting all servers\<close>

lemmas stop_defs = startListening_def stopListening_def subscribe_def restartAllServers_def
  restartAllServers_resume_def stopAllServers_def stopServer_def stopServer_resume_def
  shutdown_settled_def exitServer_def deleteEditorsOf_def handleTextEditor_resume_def
  newConnection_def splice1_def clearTimeout_def case_prod_unfold

text \<open>
  C8. What \<open>restartAllServers\<close> does on a manager that is listening and has two
  connected servers, each with a mapped editor. \<open>startListening\<close> leaves \<open>_isStarted\<close>
  false, so the \<open>stopListening\<close> of \<open>restartAllServers\<close> does nothing: all
  subscriptions are still live after the stop phase has begun. \<open>stopAllServers\<close> maps
  over the registry while \<open>stopServer\<close> removes from it, so only the first server is
  stopped. Once its \<open>shutdown\<close> is acknowledged and \<open>restartAllServers\<close> has run to its
  end, the editor mapping is empty, but the second server is still in the registry and
  the three subscriptions of \<open>startListening\<close> exist twice.
\<close>

theorem restartAllServers_on_two_servers:
  "isStarted (run sampleEnv
      [StartListening, GetServer 0 True, StartFulfilled 0 serverA, GetServer 3 True, StartFulfilled 1 serverC,
       HandleTextEditorResume 0 (Some serverA), HandleTextEditorResume 3 (Some serverC)]
      (newServerManager sampleEnv [''/a'', ''/c''])) = False
   \<and> subscriptions (run sampleEnv
      [StartListening, GetServer 0 True, StartFulfilled 0 serverA, GetServer 3 True, StartFulfilled 1 serverC,
       HandleTextEditorResume 0 (Some serverA), HandleTextEditorResume 3 (Some serverC)]
      (newServerManager sampleEnv [''/a'', ''/c'']))
     = [(0, ObserveTextEditors), (1, OnDidChangePaths), (2, OnDidChangeFiles),
        (3, EditorOnDidDestroy 0), (4, EditorOnDidDestroy 3)]
   \<and> activeServers (run sampleEnv
      [StartListening, GetServer 0 True, StartFulfilled 0 serverA, GetServer 3 True, StartFulfilled 1 serverC,
       HandleTextEditorResume 0 (Some serverA), HandleTextEditorResume 3 (Some serverC)]
      (newServerManager sampleEnv [''/a'', ''/c''])) = [serverA, serverC]
   \<and> subscriptions (run sampleEnv
      [StartListening, GetServer 0 True, StartFulfilled 0 serverA, GetServer 3 True, StartFulfilled 1 serverC,
       HandleTextEditorResume 0 (Some serverA), HandleTextEditorResume 3 (Some serverC), RestartAllServers]
      (newServerManager sampleEnv [''/a'', ''/c'']))
     = [(0, ObserveTextEditors), (1, OnDidChangePaths), (2, OnDidChangeFiles),
        (3, EditorOnDidDestroy 0), (4, EditorOnDidDestroy 3)]
   \<and> awaitingShutdown (run sampleEnv
      [StartListening, GetServer 0 True, StartFulfilled 0 serverA, GetServer 3 True, StartFulfilled 1 serverC,
       HandleTextEditorResume 0 (Some serverA), HandleTextEditorResume 3 (Some serverC), RestartAllServers]
      (newServerManager sampleEnv [''/a'', ''/c''])) = [serverA]
   \<and> activeServers (run sampleEnv
      [StartListening, GetServer 0 True, StartFulfilled 0 serverA, GetServer 3 True, StartFulfilled 1 serverC,
       HandleTextEditorResume 0 (Some serverA), HandleTextEditorResume 3 (Some serverC), RestartAllServers,
       ShutdownFulfilled serverA, RestartAllServersResume]
      (newServerManager sampleEnv [''/a'', ''/c''])) = [serverC]
   \<and> awaitingShutdown (run sampleEnv
      [StartListening, GetServer 0 True, StartFulfilled 0 serverA, GetServer 3 True, StartFulfilled 1 serverC,
       HandleTextEditorResume 0 (Some serverA), HandleTextEditorResume 3 (Some serverC), RestartAllServers,
       ShutdownFulfilled serverA, RestartAllServersResume]
      (newServerManager sampleEnv [''/a'', ''/c''])) = []
   \<and> editorToServer (run sampleEnv
      [StartListening, GetServer 0 True, StartFulfilled 0 serverA, GetServer 3 True, StartFulfilled 1 serverC,
       HandleTextEditorResume 0 (Some serverA), HandleTextEditorResume 3 (Some serverC), RestartAllServers,
       ShutdownFulfilled serverA, RestartAllServersResume]
      (newServerManager sampleEnv [''/a'', ''/c''])) = []
   \<and> subscriptions (run sampleEnv
      [StartListening, GetServer 0 True, StartFulfilled 0 serverA, GetServer 3 True, StartFulfilled 1 serverC,
       HandleTextEditorResume 0 (Some serverA), HandleTextEditorResume 3 (Some serverC), RestartAllServers,
       ShutdownFulfilled serverA, RestartAllServersResume]
      (newServerManager sampleEnv [''/a'', ''/c'']))
     = [(0, ObserveTextEditors), (1, OnDidChangePaths), (2, OnDidChangeFiles),
        (3, EditorOnDidDestroy 0), (4, EditorOnDidDestroy 3),
        (5, ObserveTextEditors), (6, OnDidChangePaths), (7, OnDidChangeFiles)]"
  by (simp add: eval_defs stop_defs upt_rec)


end
